theory Spec2Isabelle
  imports Main "HOL-Library.AList"
begin

section \<open>Book review service: the cache-aside listing of books\<close>

text \<open>
  A shallow embedding of the service in \<^verbatim>\<open>app/routers/books.py\<close>, \<^verbatim>\<open>app/crud.py\<close>,
  \<^verbatim>\<open>app/models.py\<close> and \<^verbatim>\<open>app/schemas.py\<close>. The route handlers become functions on an
  explicit world state (cache backend, relational store, standard output); an exception
  is the \<open>Inl\<close> branch of a sum. The two library calls whose results the handlers
  look into, \<^verbatim>\<open>json.dumps\<close> and \<^verbatim>\<open>json.loads\<close>, are embedded as executable functions
  on sequences of code points.
\<close>

subsection \<open>Python values\<close>

text \<open>
  A Python \<^verbatim>\<open>str\<close> is a sequence of Unicode code points; \<open>lit\<close> turns an ASCII
  literal into one. Characters are written by their code: \<^verbatim>\<open>0x22\<close> the quote, \<^verbatim>\<open>0x5C\<close> the
  backslash, \<^verbatim>\<open>0x2C\<close> the comma, \<^verbatim>\<open>0x3A\<close> the colon, \<^verbatim>\<open>0x5B\<close> and \<^verbatim>\<open>0x5D\<close> the square
  brackets, \<^verbatim>\<open>0x7B\<close> and \<^verbatim>\<open>0x7D\<close> the braces, \<^verbatim>\<open>0x2D\<close> the minus sign, \<^verbatim>\<open>0x30\<close> the digit
  zero, \<^verbatim>\<open>0x75\<close> the letter u. Exceptions are values, all of them subclasses of
  \<^verbatim>\<open>Exception\<close>, which is what every handler of \<^verbatim>\<open>list_books\<close> catches: the errors of the
  cache client, of \<^verbatim>\<open>json.loads\<close> and of the store, and any other by its name.
\<close>

type_synonym pystr = "nat list"

definition lit :: "string \<Rightarrow> pystr" where
  "lit s = map of_char s"

datatype exn =
    ConnectionError
  | TimeoutError
  | ResponseError
  | JSONDecodeError
  | IntegrityError
  | OtherException string

text \<open>
  The values \<^verbatim>\<open>json.loads\<close> returns and \<^verbatim>\<open>json.dumps\<close> accepts. A \<^verbatim>\<open>dict\<close> is an
  association list in insertion order, so that equal values here are equal in Python. A
  float is kept as the text of its literal: its numeric value is not interpreted, the
  encoder prints the literal back, and no value built by the service contains one.
\<close>

datatype json =
    JNull
  | JBool bool
  | JInt int
  | JFloat pystr
  | JStr pystr
  | JArr "json list"
  | JObj "(pystr \<times> json) list"

subsection \<open>\<^verbatim>\<open>json.dumps\<close>\<close>

text \<open>
  The encoder of the standard library with its default settings, as \<^verbatim>\<open>list_books\<close> calls
  it: \<^verbatim>\<open>ensure_ascii=True\<close>, separators \<^verbatim>\<open>", "\<close> and \<^verbatim>\<open>": "\<close>. A string is escaped by
  \<^verbatim>\<open>encode_basestring_ascii\<close>: the short escapes for backslash, quote and the five control
  characters, every other character outside \<^verbatim>\<open>' '..'~'\<close> as \<^verbatim>\<open>\uXXXX\<close> in lower-case
  hexadecimal, and a code point above \<^verbatim>\<open>0xFFFF\<close> as a surrogate pair. An \<^verbatim>\<open>int\<close> is
  printed in decimal.
\<close>

definition hexdigit :: "nat \<Rightarrow> nat" where
  "hexdigit d = (if d < 10 then 0x30 + d else 0x57 + d)"

definition hex4 :: "nat \<Rightarrow> pystr" where
  "hex4 n = [hexdigit (n div 4096 mod 16), hexdigit (n div 256 mod 16),
             hexdigit (n div 16 mod 16), hexdigit (n mod 16)]"

definition escape_char :: "nat \<Rightarrow> pystr" where
  "escape_char c =
     (if c = 0x5C then [0x5C, 0x5C]
      else if c = 0x22 then [0x5C, 0x22]
      else if c = 0x08 then [0x5C, 0x62]
      else if c = 0x0C then [0x5C, 0x66]
      else if c = 0x0A then [0x5C, 0x6E]
      else if c = 0x0D then [0x5C, 0x72]
      else if c = 0x09 then [0x5C, 0x74]
      else if 0x20 \<le> c \<and> c \<le> 0x7E then [c]
      else if c < 0x10000 then [0x5C, 0x75] @ hex4 c
      else (let n = c - 0x10000;
                s1 = 0xD800 + n div 1024 mod 1024;
                s2 = 0xDC00 + n mod 1024
            in [0x5C, 0x75] @ hex4 s1 @ [0x5C, 0x75] @ hex4 s2))"

definition encode_basestring_ascii :: "pystr \<Rightarrow> pystr" where
  "encode_basestring_ascii s = [0x22] @ concat (map escape_char s) @ [0x22]"

fun digits :: "nat \<Rightarrow> pystr" where
  "digits n = (if n < 10 then [0x30 + n] else digits (n div 10) @ [0x30 + n mod 10])"

declare digits.simps [simp del]

definition int_repr :: "int \<Rightarrow> pystr" where
  "int_repr i = (if i < 0 then 0x2D # digits (nat (- i)) else digits (nat i))"

fun join :: "pystr \<Rightarrow> pystr list \<Rightarrow> pystr" where
  "join sep [] = []"
| "join sep [x] = x"
| "join sep (x # y # ys) = x @ sep @ join sep (y # ys)"

fun json_dumps :: "json \<Rightarrow> pystr" where
  "json_dumps JNull = lit ''null''"
| "json_dumps (JBool b) = (if b then lit ''true'' else lit ''false'')"
| "json_dumps (JInt i) = int_repr i"
| "json_dumps (JFloat l) = l"
| "json_dumps (JStr s) = encode_basestring_ascii s"
| "json_dumps (JArr vs) = [0x5B] @ join (lit '', '') (map json_dumps vs) @ [0x5D]"
| "json_dumps (JObj kvs) =
     [0x7B] @ join (lit '', '')
        (map (\<lambda>(k, v). encode_basestring_ascii k @ lit '': '' @ json_dumps v) kvs) @ [0x7D]"

subsection \<open>\<^verbatim>\<open>json.loads\<close>\<close>

text \<open>
  The decoder of the standard library (\<^verbatim>\<open>json/decoder.py\<close>, \<^verbatim>\<open>json/scanner.py\<close> and
  their C accelerator, which CPython uses by default) with its default settings
  (\<^verbatim>\<open>strict=True\<close>, no hooks), on the remaining input instead of an index into the string.
  Every error of the decoder is the one value \<open>JSONDecodeError\<close>. The limits of the
  interpreter (recursion depth, the optional bound on the digits of an integer
  conversion) are outside this model: a document that exceeds them makes CPython raise,
  which \<^verbatim>\<open>list_books\<close> handles like any other error of \<^verbatim>\<open>json.loads\<close>. Whitespace is
  \<^verbatim>\<open>[ \t\n\r]*\<close>.
\<close>

definition is_ws :: "nat \<Rightarrow> bool" where
  "is_ws c \<longleftrightarrow> c = 0x20 \<or> c = 0x09 \<or> c = 0x0A \<or> c = 0x0D"

definition skip_ws :: "pystr \<Rightarrow> pystr" where
  "skip_ws s = dropWhile is_ws s"

definition is_digit :: "nat \<Rightarrow> bool" where
  "is_digit c \<longleftrightarrow> 0x30 \<le> c \<and> c \<le> 0x39"

definition hexval :: "nat \<Rightarrow> nat option" where
  "hexval c =
     (if 0x30 \<le> c \<and> c \<le> 0x39 then Some (c - 0x30)
      else if 0x61 \<le> c \<and> c \<le> 0x66 then Some (c - 0x57)
      else if 0x41 \<le> c \<and> c \<le> 0x46 then Some (c - 0x37)
      else None)"

text \<open>
  \<^verbatim>\<open>_decode_uXXXX\<close> reads exactly four hexadecimal digits; \<^verbatim>\<open>BACKSLASH\<close> is the table of
  the one-letter escapes. \<open>scan_escape\<close> is the part of \<^verbatim>\<open>py_scanstring\<close> that follows a
  backslash: a high surrogate directly followed by a \<^verbatim>\<open>\u\<close> escape of a low surrogate is
  joined with it into one code point; followed by a \<^verbatim>\<open>\u\<close> that does not decode, it is
  an error.
\<close>

definition decode_uXXXX :: "pystr \<Rightarrow> (nat \<times> pystr) option" where
  "decode_uXXXX s =
     (case s of
        a # b # c # d # rest \<Rightarrow>
          (case (hexval a, hexval b, hexval c, hexval d) of
             (Some h3, Some h2, Some h1, Some h0) \<Rightarrow>
               Some (((h3 * 16 + h2) * 16 + h1) * 16 + h0, rest)
           | _ \<Rightarrow> None)
      | _ \<Rightarrow> None)"

definition backslash :: "nat \<Rightarrow> nat option" where
  "backslash e =
     (if e = 0x22 then Some 0x22
      else if e = 0x5C then Some 0x5C
      else if e = 0x2F then Some 0x2F
      else if e = 0x62 then Some 0x08
      else if e = 0x66 then Some 0x0C
      else if e = 0x6E then Some 0x0A
      else if e = 0x72 then Some 0x0D
      else if e = 0x74 then Some 0x09
      else None)"

definition scan_escape :: "pystr \<Rightarrow> exn + nat \<times> pystr" where
  "scan_escape s =
     (case s of
        [] \<Rightarrow> Inl JSONDecodeError
      | esc # r \<Rightarrow>
          if esc \<noteq> 0x75 then
            (case backslash esc of
               None \<Rightarrow> Inl JSONDecodeError
             | Some ch \<Rightarrow> Inr (ch, r))
          else
            (case decode_uXXXX r of
               None \<Rightarrow> Inl JSONDecodeError
             | Some (uni, r1) \<Rightarrow>
                 if 0xD800 \<le> uni \<and> uni \<le> 0xDBFF \<and> take 2 r1 = [0x5C, 0x75] then
                   (case decode_uXXXX (drop 2 r1) of
                      None \<Rightarrow> Inl JSONDecodeError
                    | Some (uni2, r2) \<Rightarrow>
                        if 0xDC00 \<le> uni2 \<and> uni2 \<le> 0xDFFF then
                          Inr (0x10000 + ((uni - 0xD800) * 1024 + (uni2 - 0xDC00)), r2)
                        else Inr (uni, r1))
                 else Inr (uni, r1)))"

lemma decode_uXXXX_length: "decode_uXXXX s = Some (u, r) \<Longrightarrow> length s = length r + 4"
  by (auto simp: decode_uXXXX_def split: list.splits option.splits)

lemma scan_escape_length: "scan_escape s = Inr (ch, r) \<Longrightarrow> length r < length s"
  by (auto simp: scan_escape_def split: list.splits option.splits if_splits
           dest!: decode_uXXXX_length)

text \<open>
  \<^verbatim>\<open>py_scanstring\<close>, entered after the opening quote: the decoded string and the input
  after the closing quote. A raw control character is refused (\<^verbatim>\<open>strict\<close>).
\<close>

function scanstring :: "pystr \<Rightarrow> exn + pystr \<times> pystr" where
  "scanstring [] = Inl JSONDecodeError"
| "scanstring (c # cs) =
     (if c = 0x22 then Inr ([], cs)
      else if c = 0x5C then
        (case scan_escape cs of
           Inl e \<Rightarrow> Inl e
         | Inr (ch, rest) \<Rightarrow>
             (case scanstring rest of
                Inl e \<Rightarrow> Inl e
              | Inr (str, rest') \<Rightarrow> Inr (ch # str, rest')))
      else if c < 0x20 then Inl JSONDecodeError
      else
        (case scanstring cs of
           Inl e \<Rightarrow> Inl e
         | Inr (str, rest') \<Rightarrow> Inr (c # str, rest')))"
  by pat_completeness auto
termination
  by (relation "measure length") (auto dest: scan_escape_length)

text \<open>
  \<^verbatim>\<open>NUMBER_RE\<close> is \<^verbatim>\<open>(-?(?:0|[1-9][0-9]*))(\.[0-9]+)?([eE][-+]?[0-9]+)?\<close>, matched
  greedily at the current position. A match with no fraction and no exponent is an
  \<^verbatim>\<open>int\<close>, any other a \<^verbatim>\<open>float\<close>.
\<close>

definition match_exp :: "pystr \<Rightarrow> pystr \<times> pystr" where
  "match_exp s =
     (case s of
        [] \<Rightarrow> ([], s)
      | e # t \<Rightarrow>
          if e = 0x65 \<or> e = 0x45 then
            (let (sg, t') = (case t of
                               [] \<Rightarrow> ([], t)
                             | c # t1 \<Rightarrow> if c = 0x2B \<or> c = 0x2D then ([c], t1) else ([], t))
             in if takeWhile is_digit t' \<noteq> []
                then (e # sg @ takeWhile is_digit t', dropWhile is_digit t')
                else ([], s))
          else ([], s))"

definition match_frac :: "pystr \<Rightarrow> pystr \<times> pystr" where
  "match_frac s =
     (case s of
        [] \<Rightarrow> ([], s)
      | dot # t \<Rightarrow>
          if dot = 0x2E \<and> takeWhile is_digit t \<noteq> []
          then (dot # takeWhile is_digit t, dropWhile is_digit t)
          else ([], s))"

definition match_integer :: "pystr \<Rightarrow> (pystr \<times> pystr) option" where
  "match_integer s =
     (let (sg, s1) = (case s of
                        [] \<Rightarrow> ([], s)
                      | c # t \<Rightarrow> if c = 0x2D then ([c], t) else ([], s))
      in case s1 of
           [] \<Rightarrow> None
         | d # t \<Rightarrow>
             if d = 0x30 then Some (sg @ [d], t)
             else if is_digit d then Some (sg @ d # takeWhile is_digit t, dropWhile is_digit t)
             else None)"

definition int_of_digits :: "pystr \<Rightarrow> nat" where
  "int_of_digits ds = foldl (\<lambda>a d. 10 * a + (d - 0x30)) 0 ds"

definition int_of_str :: "pystr \<Rightarrow> int" where
  "int_of_str s =
     (case s of
        [] \<Rightarrow> 0
      | c # t \<Rightarrow> if c = 0x2D then - int (int_of_digits t) else int (int_of_digits s))"

definition match_number :: "pystr \<Rightarrow> (json \<times> pystr) option" where
  "match_number s =
     (case match_integer s of
        None \<Rightarrow> None
      | Some (integer, r1) \<Rightarrow>
          (let (frac, r2) = match_frac r1;
               (exp, r3) = match_exp r2
           in if frac \<noteq> [] \<or> exp \<noteq> []
              then Some (JFloat (integer @ frac @ exp), r3)
              else Some (JInt (int_of_str integer), r3)))"

text \<open>
  \<^verbatim>\<open>dict(pairs)\<close>: a repeated key keeps its first position and takes the last value.
\<close>

definition dict :: "(pystr \<times> json) list \<Rightarrow> (pystr \<times> json) list" where
  "dict pairs = foldl (\<lambda>d (k, v). AList.update k v d) [] pairs"

text \<open>
  \<^verbatim>\<open>scan_once\<close> dispatches on the next character; \<open>scan_array\<close> is the loop of
  \<^verbatim>\<open>JSONArray\<close> entered at the first element, \<open>scan_object\<close> the loop of \<^verbatim>\<open>JSONObject\<close>
  entered after the opening quote of a key. \<open>scan_constant\<close> is the tail of
  \<^verbatim>\<open>scan_once\<close>: the three literals, numbers, and the three names of special floats.
\<close>

definition scan_constant :: "pystr \<Rightarrow> exn + json \<times> pystr" where
  "scan_constant s =
     (if take 4 s = lit ''null'' then Inr (JNull, drop 4 s)
      else if take 4 s = lit ''true'' then Inr (JBool True, drop 4 s)
      else if take 5 s = lit ''false'' then Inr (JBool False, drop 5 s)
      else
        (case match_number s of
           Some (v, rest) \<Rightarrow> Inr (v, rest)
         | None \<Rightarrow>
             if take 3 s = lit ''NaN'' then Inr (JFloat (lit ''NaN''), drop 3 s)
             else if take 8 s = lit ''Infinity'' then Inr (JFloat (lit ''Infinity''), drop 8 s)
             else if take 9 s = lit ''-Infinity'' then Inr (JFloat (lit ''-Infinity''), drop 9 s)
             else Inl JSONDecodeError))"

function scan_once :: "pystr \<Rightarrow> exn + json \<times> pystr"
  and scan_array :: "pystr \<Rightarrow> exn + json list \<times> pystr"
  and scan_object :: "pystr \<Rightarrow> exn + (pystr \<times> json) list \<times> pystr"
where
  "scan_once s =
     (case s of
        [] \<Rightarrow> Inl JSONDecodeError
      | c # cs \<Rightarrow>
          if c = 0x22 then
            (case scanstring cs of
               Inl e \<Rightarrow> Inl e
             | Inr (str, rest) \<Rightarrow> Inr (JStr str, rest))
          else if c = 0x7B then
            (case skip_ws cs of
               [] \<Rightarrow> Inl JSONDecodeError
             | d # r \<Rightarrow>
                 if d = 0x7D then Inr (JObj [], r)
                 else if d = 0x22 then
                   (case scan_object r of
                      Inl e \<Rightarrow> Inl e
                    | Inr (pairs, rest) \<Rightarrow> Inr (JObj (dict pairs), rest))
                 else Inl JSONDecodeError)
          else if c = 0x5B then
            (case skip_ws cs of
               [] \<Rightarrow> Inl JSONDecodeError
             | d # r \<Rightarrow>
                 if d = 0x5D then Inr (JArr [], r)
                 else
                   (case scan_array (d # r) of
                      Inl e \<Rightarrow> Inl e
                    | Inr (vs, rest) \<Rightarrow> Inr (JArr vs, rest)))
          else scan_constant s)"
| "scan_array s =
     (case scan_once s of
        Inl e \<Rightarrow> Inl e
      | Inr (v, r) \<Rightarrow>
          (case skip_ws r of
             [] \<Rightarrow> Inl JSONDecodeError
           | d # r' \<Rightarrow>
               if d = 0x5D then Inr ([v], r')
               else if d = 0x2C then
                 (case scan_array (skip_ws r') of
                    Inl e \<Rightarrow> Inl e
                  | Inr (vs, rest) \<Rightarrow> Inr (v # vs, rest))
               else Inl JSONDecodeError))"
| "scan_object s =
     (case scanstring s of
        Inl e \<Rightarrow> Inl e
      | Inr (key, r) \<Rightarrow>
          (case skip_ws r of
             [] \<Rightarrow> Inl JSONDecodeError
           | colon # r1 \<Rightarrow>
               if colon \<noteq> 0x3A then Inl JSONDecodeError
               else
                 (case scan_once (skip_ws r1) of
                    Inl e \<Rightarrow> Inl e
                  | Inr (v, r2) \<Rightarrow>
                      (case skip_ws r2 of
                         [] \<Rightarrow> Inl JSONDecodeError
                       | d # r3 \<Rightarrow>
                           if d = 0x7D then Inr ([(key, v)], r3)
                           else if d = 0x2C then
                             (case skip_ws r3 of
                                [] \<Rightarrow> Inl JSONDecodeError
                              | q # r4 \<Rightarrow>
                                  if q \<noteq> 0x22 then Inl JSONDecodeError
                                  else
                                    (case scan_object r4 of
                                       Inl e \<Rightarrow> Inl e
                                     | Inr (pairs, rest) \<Rightarrow> Inr ((key, v) # pairs, rest)))
                           else Inl JSONDecodeError))))"
  by pat_completeness auto

text \<open>
  Termination: every successful scan returns a strictly shorter input. This is proved
  on the domain of the functions first, and then gives the measure for the nested calls.
\<close>

lemma skip_ws_length: "length (skip_ws s) \<le> length s"
  by (simp add: skip_ws_def length_dropWhile_le)

lemma skip_ws_Cons_length: "skip_ws s = d # r \<Longrightarrow> length r < length s"
  using skip_ws_length [of s] by simp

lemma scanstring_length: "scanstring s = Inr (str, r) \<Longrightarrow> length r < length s"
proof (induction s arbitrary: str r rule: scanstring.induct)
  case 1
  then show ?case by simp
next
  case (2 c cs)
  show ?case
  proof (cases "c = 0x22")
    case True
    with "2.prems" show ?thesis by simp
  next
    case nq: False
    show ?thesis
    proof (cases "c = 0x5C")
      case True
      with nq "2.prems" obtain ch rest str' where
        e: "scan_escape cs = Inr (ch, rest)" and r: "scanstring rest = Inr (str', r)"
        by (auto split: sum.splits prod.splits)
      from "2.IH"(1) [OF nq True e refl r] scan_escape_length [OF e]
      show ?thesis by simp
    next
      case False
      with nq "2.prems" obtain str' where c: "\<not> c < 0x20" and r: "scanstring cs = Inr (str', r)"
        by (auto split: sum.splits prod.splits if_splits)
      from "2.IH"(2) [OF nq False c r] show ?thesis by simp
    qed
  qed
qed

lemma match_integer_length: "match_integer s = Some (i, r) \<Longrightarrow> length r < length s"
  by (auto simp: match_integer_def Let_def length_dropWhile_le less_Suc_eq_le
           split: list.splits if_splits intro: le_SucI)

lemma match_frac_length: "match_frac s = (f, r) \<Longrightarrow> length r \<le> length s"
  by (auto simp: match_frac_def length_dropWhile_le split: list.splits if_splits intro: le_SucI)

lemma match_exp_length: "match_exp s = (x, r) \<Longrightarrow> length r \<le> length s"
  by (auto simp: match_exp_def Let_def length_dropWhile_le split: list.splits if_splits
           intro: le_SucI order_trans [OF length_dropWhile_le])

lemma match_number_length: "match_number s = Some (v, r) \<Longrightarrow> length r < length s"
  by (auto simp: match_number_def Let_def split: option.splits prod.splits if_splits
           dest!: match_integer_length match_frac_length match_exp_length)


lemma take_Cons_drop_length: "take n s = x # xs \<Longrightarrow> length (drop n s) < length s"
  by (cases s; cases n) auto

lemma scan_constant_length: "scan_constant s = Inr (v, r) \<Longrightarrow> length r < length s"
  by (auto simp: scan_constant_def lit_def split: if_splits option.splits
           dest: match_number_length take_Cons_drop_length simp del: length_drop)

lemma scan_consumes_dom:
  "scan_once_scan_array_scan_object_dom (Inl s) \<Longrightarrow>
     \<forall>v r. scan_once s = Inr (v, r) \<longrightarrow> length r < length s"
  "scan_once_scan_array_scan_object_dom (Inr (Inl sa)) \<Longrightarrow>
     \<forall>vs r. scan_array sa = Inr (vs, r) \<longrightarrow> length r < length sa"
  "scan_once_scan_array_scan_object_dom (Inr (Inr so)) \<Longrightarrow>
     \<forall>ps r. scan_object so = Inr (ps, r) \<longrightarrow> length r < length so"
proof (induction rule: scan_once_scan_array_scan_object.pinduct)
  case (1 s)
  show ?case
  proof (intro allI impI)
    fix v r0
    assume "scan_once s = Inr (v, r0)"
    then have eq: "(case s of
        [] \<Rightarrow> Inl JSONDecodeError
      | c # cs \<Rightarrow>
          if c = 0x22 then
            (case scanstring cs of
               Inl e \<Rightarrow> Inl e
             | Inr (str, rest) \<Rightarrow> Inr (JStr str, rest))
          else if c = 0x7B then
            (case skip_ws cs of
               [] \<Rightarrow> Inl JSONDecodeError
             | d # r \<Rightarrow>
                 if d = 0x7D then Inr (JObj [], r)
                 else if d = 0x22 then
                   (case scan_object r of
                      Inl e \<Rightarrow> Inl e
                    | Inr (pairs, rest) \<Rightarrow> Inr (JObj (dict pairs), rest))
                 else Inl JSONDecodeError)
          else if c = 0x5B then
            (case skip_ws cs of
               [] \<Rightarrow> Inl JSONDecodeError
             | d # r \<Rightarrow>
                 if d = 0x5D then Inr (JArr [], r)
                 else
                   (case scan_array (d # r) of
                      Inl e \<Rightarrow> Inl e
                    | Inr (vs, rest) \<Rightarrow> Inr (JArr vs, rest)))
          else scan_constant s) = Inr (v, r0)"
      by (simp only: scan_once.psimps [OF "1.hyps"])
    then obtain c cs where s: "s = c # cs"
      by (cases s) auto
    consider (str) "c = 0x22" | (obj) "c \<noteq> 0x22" "c = 0x7B"
      | (arr) "c \<noteq> 0x22" "c \<noteq> 0x7B" "c = 0x5B"
      | (const) "c \<noteq> 0x22" "c \<noteq> 0x7B" "c \<noteq> 0x5B"
      by blast
    then show "length r0 < length s"
    proof cases
      case str
      with eq s show ?thesis
        by (auto split: sum.splits dest: scanstring_length)
    next
      case obj
      with eq s obtain d r where ws: "skip_ws cs = d # r"
        by (cases "skip_ws cs") auto
      show ?thesis
      proof (cases "d = 0x7D")
        case True
        with eq s obj ws skip_ws_Cons_length [OF ws] show ?thesis by auto
      next
        case False
        with eq s obj ws obtain pairs where d: "d = 0x22" and o: "scan_object r = Inr (pairs, r0)"
          by (auto split: if_splits sum.splits)
        from "1.IH"(1) [OF s obj ws False d] o have "length r0 < length r" by blast
        with skip_ws_Cons_length [OF ws] s show ?thesis by simp
      qed
    next
      case arr
      with eq s obtain d r where ws: "skip_ws cs = d # r"
        by (cases "skip_ws cs") auto
      show ?thesis
      proof (cases "d = 0x5D")
        case True
        with eq s arr ws skip_ws_Cons_length [OF ws] show ?thesis by auto
      next
        case False
        with eq s arr ws obtain vs where o: "scan_array (d # r) = Inr (vs, r0)"
          by (auto split: if_splits sum.splits)
        from "1.IH"(2) [OF s arr ws False] o have "length r0 < length (d # r)" by blast
        with skip_ws_Cons_length [OF ws] s show ?thesis by simp
      qed
    next
      case const
      with eq s have "scan_constant s = Inr (v, r0)" by simp
      then show ?thesis by (rule scan_constant_length)
    qed
  qed
next
  case (2 s)
  show ?case
  proof (intro allI impI)
    fix vs r0
    assume "scan_array s = Inr (vs, r0)"
    then have eq: "(case scan_once s of
        Inl e \<Rightarrow> Inl e
      | Inr (v, r) \<Rightarrow>
          (case skip_ws r of
             [] \<Rightarrow> Inl JSONDecodeError
           | d # r' \<Rightarrow>
               if d = 0x5D then Inr ([v], r')
               else if d = 0x2C then
                 (case scan_array (skip_ws r') of
                    Inl e \<Rightarrow> Inl e
                  | Inr (vs, rest) \<Rightarrow> Inr (v # vs, rest))
               else Inl JSONDecodeError)) = Inr (vs, r0)"
      by (simp only: scan_array.psimps [OF "2.hyps"])
    then obtain v r where v: "scan_once s = Inr (v, r)"
      by (cases "scan_once s") auto
    with "2.IH"(1) have l1: "length r < length s" by blast
    from eq v obtain d r' where ws: "skip_ws r = d # r'"
      by (cases "skip_ws r") auto
    note l2 = skip_ws_Cons_length [OF ws]
    show "length r0 < length s"
    proof (cases "d = 0x5D")
      case True
      with eq v ws l1 l2 show ?thesis by auto
    next
      case False
      with eq v ws obtain vs' where d: "d = 0x2C"
        and a: "scan_array (skip_ws r') = Inr (vs', r0)"
        by (auto split: if_splits sum.splits)
      from "2.IH"(2) [OF v refl ws False d] a
      have "length r0 < length (skip_ws r')" by blast
      with skip_ws_length [of r'] l1 l2 show ?thesis by simp
    qed
  qed
next
  case (3 s)
  show ?case
  proof (intro allI impI)
    fix ps r0
    assume "scan_object s = Inr (ps, r0)"
    then have eq: "(case scanstring s of
        Inl e \<Rightarrow> Inl e
      | Inr (key, r) \<Rightarrow>
          (case skip_ws r of
             [] \<Rightarrow> Inl JSONDecodeError
           | colon # r1 \<Rightarrow>
               if colon \<noteq> 0x3A then Inl JSONDecodeError
               else
                 (case scan_once (skip_ws r1) of
                    Inl e \<Rightarrow> Inl e
                  | Inr (v, r2) \<Rightarrow>
                      (case skip_ws r2 of
                         [] \<Rightarrow> Inl JSONDecodeError
                       | d # r3 \<Rightarrow>
                           if d = 0x7D then Inr ([(key, v)], r3)
                           else if d = 0x2C then
                             (case skip_ws r3 of
                                [] \<Rightarrow> Inl JSONDecodeError
                              | q # r4 \<Rightarrow>
                                  if q \<noteq> 0x22 then Inl JSONDecodeError
                                  else
                                    (case scan_object r4 of
                                       Inl e \<Rightarrow> Inl e
                                     | Inr (pairs, rest) \<Rightarrow> Inr ((key, v) # pairs, rest)))
                           else Inl JSONDecodeError)))) = Inr (ps, r0)"
      by (simp only: scan_object.psimps [OF "3.hyps"])
    then obtain key r where k: "scanstring s = Inr (key, r)"
      by (cases "scanstring s") auto
    note l1 = scanstring_length [OF k]
    from eq k obtain colon r1 where ws1: "skip_ws r = colon # r1"
      by (cases "skip_ws r") auto
    note l2 = skip_ws_Cons_length [OF ws1]
    from eq k ws1 have colon: "\<not> colon \<noteq> 0x3A"
      by (auto split: if_splits)
    from eq k ws1 colon obtain v r2 where v: "scan_once (skip_ws r1) = Inr (v, r2)"
      by (cases "scan_once (skip_ws r1)") auto
    from "3.IH"(1) [OF k refl ws1 colon] v
    have l3: "length r2 < length (skip_ws r1)" by blast
    from eq k ws1 colon v obtain d r3 where ws2: "skip_ws r2 = d # r3"
      by (cases "skip_ws r2") auto
    note l4 = skip_ws_Cons_length [OF ws2]
    from l1 l2 l3 l4 skip_ws_length [of r1] have l5: "length r3 < length s" by simp
    show "length r0 < length s"
    proof (cases "d = 0x7D")
      case True
      with eq k ws1 colon v ws2 l5 show ?thesis by auto
    next
      case False
      with eq k ws1 colon v ws2 have d: "d = 0x2C"
        by (auto split: if_splits)
      with eq k ws1 colon v ws2 False obtain q r4 where ws3: "skip_ws r3 = q # r4"
        by (cases "skip_ws r3") auto
      note l6 = skip_ws_Cons_length [OF ws3]
      from eq k ws1 colon v ws2 False d ws3 have q: "\<not> q \<noteq> 0x22"
        by (auto split: if_splits)
      from eq k ws1 colon v ws2 False d ws3 q obtain pairs
        where o: "scan_object r4 = Inr (pairs, r0)"
        by (cases "scan_object r4") auto
      from "3.IH"(2) [OF k refl ws1 colon v refl ws2 False d ws3 q] o
      have "length r0 < length r4" by blast
      with l5 l6 show ?thesis by simp
    qed
  qed
qed

termination scan_once
proof (relation "measure (\<lambda>x. case x of
          Inl s \<Rightarrow> 2 * length s
        | Inr (Inl s) \<Rightarrow> 2 * length s + 1
        | Inr (Inr s) \<Rightarrow> 2 * length s + 1)", goal_cases)
  case 1
  show ?case by simp
next
  case (2 s c cs d r)
  then show ?case
    using skip_ws_Cons_length [of cs d r] by simp
next
  case (3 s c cs d r)
  then show ?case
    using skip_ws_Cons_length [of cs d r] by simp
next
  case (4 s)
  show ?case by simp
next
  case (5 s b v r d r')
  from scan_consumes_dom(1) [OF "5"(6)] "5"(1,2)
  have "length r < length s" by auto
  with skip_ws_Cons_length [OF "5"(3)] skip_ws_length [of r'] show ?case by simp
next
  case (6 s b key r colon r1)
  with scanstring_length [of s key r] skip_ws_Cons_length [of r colon r1]
    skip_ws_length [of r1]
  show ?case by auto
next
  case (7 s b key r colon r1 b' v r2 d r3 q r4)
  from "7"(1,2) have "length r < length s"
    by (auto dest: scanstring_length)
  moreover from scan_consumes_dom(1) [OF "7"(12)] "7"(5,6)
  have "length r2 < length (skip_ws r1)" by auto
  ultimately show ?case
    using skip_ws_Cons_length [OF "7"(3)] skip_ws_Cons_length [OF "7"(7)]
      skip_ws_Cons_length [OF "7"(10)] skip_ws_length [of r1]
    by simp
qed

declare scan_once.simps [simp del] scan_array.simps [simp del] scan_object.simps [simp del]

text \<open>
  \<^verbatim>\<open>JSONDecoder.decode\<close>: one value, surrounded by optional whitespace, and nothing else.
\<close>

definition json_loads :: "pystr \<Rightarrow> exn + json" where
  "json_loads s =
     (case scan_once (skip_ws s) of
        Inl e \<Rightarrow> Inl e
      | Inr (obj, rest) \<Rightarrow> if skip_ws rest = [] then Inr obj else Inl JSONDecodeError)"

subsection \<open>The relational store\<close>

text \<open>
  The tables of \<^verbatim>\<open>app/models.py\<close>. Both have an integer primary key \<^verbatim>\<open>id\<close>; \<^verbatim>\<open>title\<close>,
  \<^verbatim>\<open>author\<close> and \<^verbatim>\<open>content\<close> are not nullable; \<^verbatim>\<open>book_id\<close> is a nullable foreign key to
  \<^verbatim>\<open>books.id\<close>. \<open>select_count\<close> counts the executions of the book query of
  \<^verbatim>\<open>crud.get_books\<close>, so that a handler that leaves it unchanged did not consult the
  store. Reads of the store are total: the handlers have no branch for an unreachable
  store.
\<close>

record Book =
  b_id :: int
  b_title :: pystr
  b_author :: pystr

record Review =
  r_id :: int
  r_content :: pystr
  r_book_id :: "int option"

record database =
  books :: "Book list"
  reviews :: "Review list"
  select_count :: nat

text \<open>The request and response schemas of \<^verbatim>\<open>app/schemas.py\<close>.\<close>

record ReviewCreate =
  rc_content :: pystr

record ReviewOut =
  ro_content :: pystr
  ro_id :: int

record BookCreate =
  bc_title :: pystr
  bc_author :: pystr

record BookOut =
  bo_title :: pystr
  bo_author :: pystr
  bo_id :: int
  bo_reviews :: "ReviewOut list"

text \<open>
  Modelled from the spec: \<^verbatim>\<open>app/database.py\<close> (engine and session) is not among the
  sources, so what a commit does is taken from the spec. The store assigns a unique
  integer id to a created row: \<open>next_id\<close> is one more than the largest id in use.
\<close>

definition next_id :: "int list \<Rightarrow> int" where
  "next_id ids = fold max ids 0 + 1"

text \<open>
  Modelled from the spec: the insertion of a book (\<^verbatim>\<open>db.add\<close>, \<^verbatim>\<open>db.commit\<close>,
  \<^verbatim>\<open>db.refresh\<close> on a \<^verbatim>\<open>models.Book\<close>) appends the row with its assigned id and returns it.
\<close>

definition insert_book :: "database \<Rightarrow> pystr \<Rightarrow> pystr \<Rightarrow> Book \<times> database" where
  "insert_book d t a =
     (let row = \<lparr>b_id = next_id (map b_id (books d)), b_title = t, b_author = a\<rparr>
      in (row, d\<lparr>books := books d @ [row]\<rparr>))"

text \<open>
  Modelled from the spec: the store owns referential integrity. A review must reference
  an existing book (\<^verbatim>\<open>ForeignKey("books.id")\<close> in \<^verbatim>\<open>models.Review\<close>); the insertion of a
  review whose \<^verbatim>\<open>book_id\<close> no book has is a constraint violation, an error of the store,
  and stores nothing.
\<close>

definition insert_review :: "database \<Rightarrow> pystr \<Rightarrow> int \<Rightarrow> (exn + Review) \<times> database" where
  "insert_review d c bid =
     (if bid \<in> set (map b_id (books d)) then
        (let row = \<lparr>r_id = next_id (map r_id (reviews d)), r_content = c, r_book_id = Some bid\<rparr>
         in (Inr row, d\<lparr>reviews := reviews d @ [row]\<rparr>))
      else (Inl IntegrityError, d))"

text \<open>
  \<^verbatim>\<open>app/crud.py\<close>. \<^verbatim>\<open>get_books\<close> is \<^verbatim>\<open>db.query(models.Book).all()\<close>; \<^verbatim>\<open>create_book\<close> and
  \<^verbatim>\<open>add_review\<close> add one row, commit and return the refreshed row; an exception of the
  commit is not caught.
\<close>

definition get_books :: "database \<Rightarrow> Book list \<times> database" where
  "get_books d = (books d, d\<lparr>select_count := Suc (select_count d)\<rparr>)"

definition create_book :: "database \<Rightarrow> BookCreate \<Rightarrow> Book \<times> database" where
  "create_book d book = insert_book d (bc_title book) (bc_author book)"

definition get_reviews_by_book_id :: "database \<Rightarrow> int \<Rightarrow> Review list" where
  "get_reviews_by_book_id d book_id = filter (\<lambda>r. r_book_id r = Some book_id) (reviews d)"

definition crud_add_review :: "database \<Rightarrow> int \<Rightarrow> ReviewCreate \<Rightarrow> (exn + Review) \<times> database" where
  "crud_add_review d book_id review = insert_review d (rc_content review) book_id"

text \<open>
  \<^verbatim>\<open>schemas.BookOut.model_validate(book).model_dump()\<close>: the fields are read from the row
  (\<^verbatim>\<open>from_attributes\<close>), \<^verbatim>\<open>reviews\<close> through the relationship of \<^verbatim>\<open>models.Book\<close>, that is
  the reviews whose \<^verbatim>\<open>book_id\<close> is the book's id; the dump is a \<^verbatim>\<open>dict\<close> in the order of
  the fields of the schema, inherited fields first.
\<close>

definition ReviewOut_model_validate :: "Review \<Rightarrow> ReviewOut" where
  "ReviewOut_model_validate r = \<lparr>ro_content = r_content r, ro_id = r_id r\<rparr>"

definition BookOut_model_validate :: "database \<Rightarrow> Book \<Rightarrow> BookOut" where
  "BookOut_model_validate d b =
     \<lparr>bo_title = b_title b, bo_author = b_author b, bo_id = b_id b,
      bo_reviews = map ReviewOut_model_validate (get_reviews_by_book_id d (b_id b))\<rparr>"

definition ReviewOut_model_dump :: "ReviewOut \<Rightarrow> json" where
  "ReviewOut_model_dump r =
     JObj [(lit ''content'', JStr (ro_content r)), (lit ''id'', JInt (ro_id r))]"

definition BookOut_model_dump :: "BookOut \<Rightarrow> json" where
  "BookOut_model_dump b =
     JObj [(lit ''title'', JStr (bo_title b)), (lit ''author'', JStr (bo_author b)),
           (lit ''id'', JInt (bo_id b)),
           (lit ''reviews'', JArr (map ReviewOut_model_dump (bo_reviews b)))]"

subsection \<open>The cache backend\<close>

text \<open>
  Modelled from the spec: \<^verbatim>\<open>app/cache.py\<close> (the client \<^verbatim>\<open>redis_client\<close>) is not among the
  sources. The spec has a key-value store with expiring entries, reached over a
  connection that may fail on any call. An entry is a value with the time at which it
  expires; \<open>clock\<close> is the backend's time in seconds. Values are text, as the client of
  the tests reads them (\<^verbatim>\<open>decode_responses=True\<close>). \<open>faults\<close> is the schedule of the
  coming calls: each call takes the head, \<open>Some e\<close> makes it raise \<open>e\<close> with no effect on
  the entries, \<open>None\<close> (or an empty schedule) lets it succeed.
\<close>

record redis =
  entries :: "pystr \<rightharpoonup> pystr \<times> nat"
  clock :: nat
  faults :: "exn option list"

definition next_fault :: "redis \<Rightarrow> exn option \<times> redis" where
  "next_fault c =
     (case faults c of
        [] \<Rightarrow> (None, c)
      | f # fs \<Rightarrow> (f, c\<lparr>faults := fs\<rparr>))"

definition live_value :: "redis \<Rightarrow> pystr \<Rightarrow> pystr option" where
  "live_value c k =
     (case entries c k of
        None \<Rightarrow> None
      | Some (v, expires) \<Rightarrow> if clock c < expires then Some v else None)"

text \<open>
  Modelled from the spec: \<^verbatim>\<open>redis_client.get(key)\<close> raises when the call fails, and
  otherwise returns the value of the key, or \<^verbatim>\<open>None\<close> for an absent or expired key.
\<close>

definition redis_get :: "redis \<Rightarrow> pystr \<Rightarrow> (exn + pystr option) \<times> redis" where
  "redis_get c k =
     (case next_fault c of
        (Some e, c') \<Rightarrow> (Inl e, c')
      | (None, c') \<Rightarrow> (Inr (live_value c' k), c'))"

text \<open>
  Modelled from the spec: \<^verbatim>\<open>redis_client.setex(key, ttl, value)\<close> raises when the call
  fails, and otherwise stores the value under the key, to expire \<open>ttl\<close> seconds later.
  \<open>advance\<close> lets time pass.
\<close>

definition redis_setex :: "redis \<Rightarrow> pystr \<Rightarrow> nat \<Rightarrow> pystr \<Rightarrow> (exn + unit) \<times> redis" where
  "redis_setex c k ttl v =
     (case next_fault c of
        (Some e, c') \<Rightarrow> (Inl e, c')
      | (None, c') \<Rightarrow> (Inr (), c'\<lparr>entries := (entries c')(k \<mapsto> (v, clock c' + ttl))\<rparr>))"

definition advance :: "nat \<Rightarrow> redis \<Rightarrow> redis" where
  "advance n c = c\<lparr>clock := clock c + n\<rparr>"

subsection \<open>The route handlers\<close>

text \<open>
  The state a request runs in: the cache backend, the store, and what \<^verbatim>\<open>print\<close> has
  written. A handler returns its response, or the exception that leaves it, and the new
  state. The session that \<^verbatim>\<open>get_db\<close> opens and closes around a handler has no effect of
  its own.
\<close>

datatype line =
    Cache_Hit
  | Redis_skipping_cache exn
  | Cache_Miss
  | Redis_couldnt_set_cache exn

record world =
  cache :: redis
  db :: database
  stdout :: "line list"

definition print :: "line \<Rightarrow> world \<Rightarrow> world" where
  "print l w = w\<lparr>stdout := stdout w @ [l]\<rparr>"

definition cache_key :: pystr where
  "cache_key = lit ''all_books''"

text \<open>
  \<^verbatim>\<open>list_books\<close>, lines 20 to 27: the first \<^verbatim>\<open>try\<close> block. \<open>Some\<close> is the value of its
  \<^verbatim>\<open>return\<close>; \<open>None\<close> is leaving the block, by a falsy \<^verbatim>\<open>cached_books\<close> or through the
  handler of \<^verbatim>\<open>Exception\<close>, which covers the call of \<^verbatim>\<open>get\<close> and, after
  \<^verbatim>\<open>print("Cache Hit")\<close>, the call of \<^verbatim>\<open>json.loads\<close>.
\<close>

definition check_redis :: "world \<Rightarrow> json option \<times> world" where
  "check_redis w =
     (case redis_get (cache w) cache_key of
        (Inl e, c) \<Rightarrow> (None, print (Redis_skipping_cache e) (w\<lparr>cache := c\<rparr>))
      | (Inr cached_books, c) \<Rightarrow>
          (case cached_books of
             None \<Rightarrow> (None, w\<lparr>cache := c\<rparr>)
           | Some v \<Rightarrow>
               if v \<noteq> [] then
                 (let w1 = print Cache_Hit (w\<lparr>cache := c\<rparr>)
                  in case json_loads v of
                       Inr j \<Rightarrow> (Some j, w1)
                     | Inl e \<Rightarrow> (None, print (Redis_skipping_cache e) w1))
               else (None, w\<lparr>cache := c\<rparr>)))"

text \<open>
  \<^verbatim>\<open>list_books\<close>, lines 29 to 40: the query of the store, the dump of every book, and
  the second \<^verbatim>\<open>try\<close> block, which writes the serialized result for 300 seconds and
  catches every exception of the write.
\<close>

definition fetch_from_db :: "world \<Rightarrow> (exn + json) \<times> world" where
  "fetch_from_db w =
     (let w1 = print Cache_Miss w;
          (bs, d) = get_books (db w1);
          result = JArr (map (\<lambda>book. BookOut_model_dump (BookOut_model_validate d book)) bs);
          w2 = w1\<lparr>db := d\<rparr>
      in case redis_setex (cache w2) cache_key 300 (json_dumps result) of
           (Inl e, c) \<Rightarrow> (Inr result, print (Redis_couldnt_set_cache e) (w2\<lparr>cache := c\<rparr>))
         | (Inr _, c) \<Rightarrow> (Inr result, w2\<lparr>cache := c\<rparr>))"

definition list_books :: "world \<Rightarrow> (exn + json) \<times> world" where
  "list_books w =
     (case check_redis w of
        (Some j, w') \<Rightarrow> (Inr j, w')
      | (None, w') \<Rightarrow> fetch_from_db w')"

definition add_book :: "world \<Rightarrow> BookCreate \<Rightarrow> (exn + Book) \<times> world" where
  "add_book w book =
     (case create_book (db w) book of
        (row, d) \<Rightarrow> (Inr row, w\<lparr>db := d\<rparr>))"

definition get_reviews :: "world \<Rightarrow> int \<Rightarrow> (exn + Review list) \<times> world" where
  "get_reviews w book_id = (Inr (get_reviews_by_book_id (db w) book_id), w)"

definition add_review :: "world \<Rightarrow> int \<Rightarrow> ReviewCreate \<Rightarrow> (exn + Review) \<times> world" where
  "add_review w book_id review =
     (case crud_add_review (db w) book_id review of
        (r, d) \<Rightarrow> (r, w\<lparr>db := d\<rparr>))"

text \<open>
  The collection a query of the store yields at this moment, as \<^verbatim>\<open>list_books\<close> builds
  it on the miss path.
\<close>

definition snapshot :: "database \<Rightarrow> json" where
  "snapshot d = JArr (map (\<lambda>book. BookOut_model_dump (BookOut_model_validate d book)) (books d))"

subsection \<open>Well-formed data\<close>

text \<open>
  The strings that the decoder reads back as the encoder was given them: code points
  below \<^verbatim>\<open>0x110000\<close>, as in every \<^verbatim>\<open>str\<close>, among which no high surrogate is directly
  followed by a low surrogate. Every sequence of Unicode scalar values (code points that
  are not surrogates) is such a string, so every string read from the store is one: a
  surrogate cannot be encoded, and no driver can have stored it.
\<close>

definition is_high :: "nat \<Rightarrow> bool" where
  "is_high c \<longleftrightarrow> 0xD800 \<le> c \<and> c \<le> 0xDBFF"

definition is_low :: "nat \<Rightarrow> bool" where
  "is_low c \<longleftrightarrow> 0xDC00 \<le> c \<and> c \<le> 0xDFFF"

fun no_surrogate_pair :: "pystr \<Rightarrow> bool" where
  "no_surrogate_pair (a # b # s) \<longleftrightarrow> \<not> (is_high a \<and> is_low b) \<and> no_surrogate_pair (b # s)"
| "no_surrogate_pair _ \<longleftrightarrow> True"

definition valid_text :: "pystr \<Rightarrow> bool" where
  "valid_text s \<longleftrightarrow> (\<forall>c\<in>set s. c < 0x110000) \<and> no_surrogate_pair s"

definition scalar :: "nat \<Rightarrow> bool" where
  "scalar c \<longleftrightarrow> c < 0x110000 \<and> \<not> (0xD800 \<le> c \<and> c \<le> 0xDFFF)"

text \<open>
  The values on which decoding inverts encoding: no float, every string is such a
  string, the keys of a \<^verbatim>\<open>dict\<close> are distinct.
\<close>

fun encodable :: "json \<Rightarrow> bool" where
  "encodable JNull = True"
| "encodable (JBool b) = True"
| "encodable (JInt i) = True"
| "encodable (JFloat l) = False"
| "encodable (JStr s) = valid_text s"
| "encodable (JArr vs) = (\<forall>v\<in>set vs. encodable v)"
| "encodable (JObj kvs) =
     (distinct (map fst kvs) \<and> (\<forall>(k, v)\<in>set kvs. valid_text k \<and> encodable v))"

text \<open>
  Where a printed value may stand: \<open>delimited\<close> is the input after a value inside a
  document that \<^verbatim>\<open>json.dumps\<close> wrote (the end, a comma or a closing bracket), and
  \<open>starts_value\<close> is an input that begins with neither whitespace nor \<^verbatim>\<open>]\<close>. \<open>item\<close> is one
  member of a printed \<^verbatim>\<open>dict\<close>.
\<close>

definition starts_value :: "pystr \<Rightarrow> bool" where
  "starts_value s \<longleftrightarrow> (case s of [] \<Rightarrow> False | c # _ \<Rightarrow> \<not> is_ws c \<and> c \<noteq> 0x5D)"

definition delimited :: "pystr \<Rightarrow> bool" where
  "delimited rest \<longleftrightarrow> (case rest of [] \<Rightarrow> True | c # _ \<Rightarrow> c = 0x2C \<or> c = 0x5D \<or> c = 0x7D)"

definition item :: "pystr \<times> json \<Rightarrow> pystr" where
  "item = (\<lambda>(k, v). encode_basestring_ascii k @ lit '': '' @ json_dumps v)"

text \<open>
  The input after the escape of a high surrogate that leaves it alone: it does not go on
  with \<^verbatim>\<open>\u\<close>, or the escape it goes on with is not one of a low surrogate.
\<close>

definition no_low_escape :: "pystr \<Rightarrow> bool" where
  "no_low_escape rest \<longleftrightarrow>
     take 2 rest \<noteq> [0x5C, 0x75] \<or>
     (case decode_uXXXX (drop 2 rest) of None \<Rightarrow> False | Some (u, _) \<Rightarrow> \<not> is_low u)"

text \<open>
  Records and stores all of whose strings are such strings, and the foreign key of
  \<^verbatim>\<open>models.Review\<close>: a \<^verbatim>\<open>book_id\<close> that is not null is the id of a book.
\<close>

definition valid_ReviewOut :: "ReviewOut \<Rightarrow> bool" where
  "valid_ReviewOut r \<longleftrightarrow> valid_text (ro_content r)"

definition valid_BookOut :: "BookOut \<Rightarrow> bool" where
  "valid_BookOut b \<longleftrightarrow>
     valid_text (bo_title b) \<and> valid_text (bo_author b) \<and> (\<forall>r\<in>set (bo_reviews b). valid_ReviewOut r)"

definition valid_database :: "database \<Rightarrow> bool" where
  "valid_database d \<longleftrightarrow>
     (\<forall>b\<in>set (books d). valid_text (b_title b) \<and> valid_text (b_author b)) \<and>
     (\<forall>r\<in>set (reviews d). valid_text (r_content r))"

definition foreign_key_holds :: "database \<Rightarrow> bool" where
  "foreign_key_holds d \<longleftrightarrow>
     (\<forall>r\<in>set (reviews d).
        case r_book_id r of None \<Rightarrow> True | Some bid \<Rightarrow> bid \<in> set (map b_id (books d)))"

subsection \<open>Decoding inverts encoding\<close>

text \<open>Four hexadecimal digits and the escapes of one character.\<close>

lemma hexval_hexdigit: "d < 16 \<Longrightarrow> hexval (hexdigit d) = Some d"
  by (simp add: hexval_def hexdigit_def)

lemma hex4_value:
  fixes n :: nat
  assumes "n < 65536"
  shows "((n div 4096 mod 16 * 16 + n div 256 mod 16) * 16 + n div 16 mod 16) * 16 + n mod 16 = n"
proof -
  define q1 where "q1 = n div 16"
  define q2 where "q2 = q1 div 16"
  define q3 where "q3 = q2 div 16"
  have d2: "n div 256 = q2" and d3: "n div 4096 = q3"
    by (simp_all add: q1_def q2_def q3_def div_mult2_eq [symmetric])
  have "q3 < 16"
    using assms unfolding d3 [symmetric] by (simp add: less_mult_imp_div_less)
  then have "q3 mod 16 * 16 + q2 mod 16 = q2"
    by (simp add: q3_def)
  then have "(q3 mod 16 * 16 + q2 mod 16) * 16 + q1 mod 16 = q1"
    by (simp add: q2_def)
  then have "((q3 mod 16 * 16 + q2 mod 16) * 16 + q1 mod 16) * 16 + n mod 16 = n"
    by (simp add: q1_def)
  then show ?thesis
    by (simp only: d2 d3 q1_def [symmetric])
qed

lemma decode_hex4:
  assumes "n < 65536"
  shows "decode_uXXXX (hex4 n @ rest) = Some (n, rest)"
proof -
  have h: "hexval (hexdigit (n div 4096 mod 16)) = Some (n div 4096 mod 16)"
    "hexval (hexdigit (n div 256 mod 16)) = Some (n div 256 mod 16)"
    "hexval (hexdigit (n div 16 mod 16)) = Some (n div 16 mod 16)"
    "hexval (hexdigit (n mod 16)) = Some (n mod 16)"
    by (simp_all add: hexval_hexdigit)
  show ?thesis
    unfolding decode_uXXXX_def hex4_def
    by (simp only: append_Cons append_Nil list.case h option.case prod.case
        hex4_value [OF assms])
qed

lemma escape_u:
  assumes "n < 65536" "is_high n \<longrightarrow> no_low_escape rest"
  shows "scan_escape (0x75 # hex4 n @ rest) = Inr (n, rest)"
proof (cases "is_high n \<and> take 2 rest = [0x5C, 0x75]")
  case False
  with assms(1) show ?thesis
    by (auto simp: scan_escape_def decode_hex4 is_high_def)
next
  case True
  with assms(2) obtain u r where "decode_uXXXX (drop 2 rest) = Some (u, r)" "\<not> is_low u"
    by (auto simp: no_low_escape_def split: option.splits)
  with True assms(1) show ?thesis
    by (simp add: scan_escape_def decode_hex4 is_high_def is_low_def)
qed

lemma escape_pair:
  assumes "0x10000 \<le> c" "c < 0x110000"
  shows "scan_escape (0x75 # hex4 (0xD800 + (c - 0x10000) div 1024 mod 1024) @
           0x5C # 0x75 # hex4 (0xDC00 + (c - 0x10000) mod 1024) @ rest) = Inr (c, rest)"
proof -
  define n where "n = c - 0x10000"
  define hi where "hi = 0xD800 + n div 1024 mod 1024"
  define lo where "lo = 0xDC00 + n mod 1024"
  have n: "n < 0x100000" using assms by (simp add: n_def)
  have hi: "0xD800 \<le> hi" "hi \<le> 0xDBFF" "hi < 65536"
    by (simp_all add: hi_def) 
  have lo: "0xDC00 \<le> lo" "lo \<le> 0xDFFF" "lo < 65536"
    by (simp_all add: lo_def)
  have d1: "decode_uXXXX (hex4 hi @ 0x5C # 0x75 # hex4 lo @ rest) =
      Some (hi, 0x5C # 0x75 # hex4 lo @ rest)"
    by (rule decode_hex4) (rule hi)
  have d2: "decode_uXXXX (hex4 lo @ rest) = Some (lo, rest)"
    by (rule decode_hex4) (rule lo)
  have "n div 1024 mod 1024 = n div 1024"
    using n by (simp add: less_mult_imp_div_less)
  then have "(hi - 0xD800) * 1024 + (lo - 0xDC00) = n"
    by (simp add: hi_def lo_def)
  then have j: "0x10000 + ((hi - 0xD800) * 1024 + (lo - 0xDC00)) = c"
    using assms by (simp add: n_def)
  have "scan_escape (0x75 # hex4 hi @ 0x5C # 0x75 # hex4 lo @ rest) =
      Inr (0x10000 + ((hi - 0xD800) * 1024 + (lo - 0xDC00)), rest)"
    using hi lo by (simp add: scan_escape_def d1 d2)
  then have "scan_escape (0x75 # hex4 hi @ 0x5C # 0x75 # hex4 lo @ rest) = Inr (c, rest)"
    by (simp only: j)
  then show ?thesis
    by (simp only: hi_def lo_def n_def)
qed

lemma scanstring_escape_char:
  assumes "c < 0x110000" "is_high c \<longrightarrow> no_low_escape rest"
  shows "scanstring (escape_char c @ rest) =
     (case scanstring rest of
        Inl e \<Rightarrow> Inl e
      | Inr (str, rest') \<Rightarrow> Inr (c # str, rest'))"
proof -
  consider (short) "c \<in> {0x5C, 0x22, 0x08, 0x0C, 0x0A, 0x0D, 0x09}"
    | (plain) "c \<notin> {0x5C, 0x22, 0x08, 0x0C, 0x0A, 0x0D, 0x09}" "0x20 \<le> c" "c \<le> 0x7E"
    | (u) "c \<notin> {0x5C, 0x22, 0x08, 0x0C, 0x0A, 0x0D, 0x09}" "\<not> (0x20 \<le> c \<and> c \<le> 0x7E)" "c < 0x10000"
    | (pair) "0x10000 \<le> c"
    by fastforce
  then show ?thesis
  proof cases
    case short
    then show ?thesis
      by (auto simp: escape_char_def scan_escape_def backslash_def)
  next
    case plain
    then show ?thesis
      by (simp add: escape_char_def)
  next
    case u
    with assms have "scan_escape (0x75 # hex4 c @ rest) = Inr (c, rest)"
      by (intro escape_u) auto
    with u show ?thesis
      by (simp add: escape_char_def)
  next
    case pair
    with assms have "scan_escape (0x75 # hex4 (0xD800 + (c - 0x10000) div 1024 mod 1024) @
           0x5C # 0x75 # hex4 (0xDC00 + (c - 0x10000) mod 1024) @ rest) = Inr (c, rest)"
      by (intro escape_pair) auto
    with pair show ?thesis
      by (simp add: escape_char_def Let_def)
  qed
qed

lemma no_low_escape_quote: "no_low_escape (0x22 # rest)"
  by (simp add: no_low_escape_def)

lemma no_low_escape_escape_char:
  assumes "c < 0x110000" "\<not> is_low c"
  shows "no_low_escape (escape_char c @ rest)"
proof -
  consider (short) "c \<in> {0x5C, 0x22, 0x08, 0x0C, 0x0A, 0x0D, 0x09}"
    | (plain) "c \<notin> {0x5C, 0x22, 0x08, 0x0C, 0x0A, 0x0D, 0x09}" "0x20 \<le> c" "c \<le> 0x7E"
    | (u) "c \<notin> {0x5C, 0x22, 0x08, 0x0C, 0x0A, 0x0D, 0x09}" "\<not> (0x20 \<le> c \<and> c \<le> 0x7E)" "c < 0x10000"
    | (pair) "0x10000 \<le> c"
    by fastforce
  then show ?thesis
  proof cases
    case short
    then have "\<exists>x. x \<noteq> 0x75 \<and> escape_char c = [0x5C, x]"
      by (auto simp: escape_char_def)
    then show ?thesis
      by (auto simp: no_low_escape_def)
  next
    case plain
    then show ?thesis
      by (simp add: escape_char_def no_low_escape_def)
  next
    case u
    then have "decode_uXXXX (hex4 c @ rest) = Some (c, rest)"
      by (intro decode_hex4) simp
    with u assms(2) show ?thesis
      by (simp add: escape_char_def no_low_escape_def)
  next
    case pair
    define hi where "hi = 0xD800 + (c - 0x10000) div 1024 mod 1024"
    define t where "t = 0x5C # 0x75 # hex4 (0xDC00 + (c - 0x10000) mod 1024) @ rest"
    have hi: "hi < 65536" "\<not> is_low hi"
      by (simp_all add: hi_def is_low_def)
    then have "decode_uXXXX (hex4 hi @ t) = Some (hi, t)"
      by (intro decode_hex4)
    with hi have "no_low_escape (0x5C # 0x75 # hex4 hi @ t)"
      by (simp add: no_low_escape_def)
    with pair show ?thesis
      by (simp add: escape_char_def Let_def hi_def t_def)
  qed
qed

lemma scanstring_escaped:
  "valid_text s \<Longrightarrow> scanstring (concat (map escape_char s) @ 0x22 # rest) = Inr (s, rest)"
proof (induction s rule: no_surrogate_pair.induct)
  case (1 a b s)
  then have v: "valid_text (b # s)" and a: "a < 0x110000" and b: "b < 0x110000"
    and p: "is_high a \<longrightarrow> \<not> is_low b"
    by (auto simp: valid_text_def)
  from b p have "is_high a \<longrightarrow>
      no_low_escape (escape_char b @ concat (map escape_char s) @ 0x22 # rest)"
    by (auto intro: no_low_escape_escape_char)
  with a "1.IH" [OF v] show ?case
    by (simp add: scanstring_escape_char)
qed (simp_all add: valid_text_def scanstring_escape_char no_low_escape_quote)

lemma valid_text_scalar: "\<forall>c\<in>set s. scalar c \<Longrightarrow> valid_text s"
proof (induction s rule: no_surrogate_pair.induct)
  case (1 a b s)
  then show ?case
    by (auto simp: valid_text_def scalar_def is_high_def)
qed (simp_all add: valid_text_def scalar_def)

lemma scan_once_encoded_string:
  "valid_text s \<Longrightarrow> scan_once (encode_basestring_ascii s @ rest) = Inr (JStr s, rest)"
  by (simp add: encode_basestring_ascii_def scan_once.simps scanstring_escaped)

text \<open>Decimal integers.\<close>

lemma digits_digit: "d \<in> set (digits n) \<Longrightarrow> is_digit d"
proof (induction n arbitrary: d rule: digits.induct)
  case (1 n)
  show ?case
  proof (cases "n < 10")
    case True
    with "1.prems" show ?thesis
      by (subst (asm) digits.simps) (simp add: is_digit_def)
  next
    case False
    with "1.prems" have "d \<in> set (digits (n div 10)) \<or> d = 0x30 + n mod 10"
      by (subst (asm) digits.simps) auto
    then show ?thesis
    proof
      assume "d \<in> set (digits (n div 10))"
      with "1.IH" False show ?thesis by simp
    next
      assume "d = 0x30 + n mod 10"
      moreover have "n mod 10 < 10" by simp
      ultimately show ?thesis
        unfolding is_digit_def by linarith
    qed
  qed
qed

lemma digits_Cons: "\<exists>d ds. digits n = d # ds \<and> is_digit d \<and> (d = 0x30 \<longrightarrow> n = 0 \<and> ds = [])"
proof (induction n rule: digits.induct)
  case (1 n)
  show ?case
  proof (cases "n < 10")
    case True
    then show ?thesis
      by (subst digits.simps) (simp add: is_digit_def)
  next
    case False
    with "1.IH" obtain d ds where
      d: "digits (n div 10) = d # ds" "is_digit d" "d = 0x30 \<longrightarrow> n div 10 = 0 \<and> ds = []"
      by blast
    from False have "n div 10 \<noteq> 0" by simp
    with d have "d \<noteq> 0x30" by blast
    with d False show ?thesis
      by (subst digits.simps) simp
  qed
qed

lemma int_of_digits_snoc: "int_of_digits (ds @ [d]) = 10 * int_of_digits ds + (d - 0x30)"
  by (simp add: int_of_digits_def)

lemma int_of_digits_digits: "int_of_digits (digits n) = n"
proof (induction n rule: digits.induct)
  case (1 n)
  show ?case
  proof (cases "n < 10")
    case True
    then show ?thesis
      by (subst digits.simps) (simp add: int_of_digits_def)
  next
    case False
    with "1.IH" show ?thesis
      by (subst digits.simps) (simp add: int_of_digits_snoc)
  qed
qed

lemma delimited_not_digit: "delimited rest \<Longrightarrow> takeWhile is_digit rest = []"
  by (cases rest) (auto simp: delimited_def is_digit_def)

lemma takeWhile_digits:
  "delimited rest \<Longrightarrow> takeWhile is_digit (digits n @ rest) = digits n"
  by (simp add: takeWhile_append2 digits_digit delimited_not_digit)

lemma delimited_dropWhile: "delimited rest \<Longrightarrow> dropWhile is_digit rest = rest"
  by (cases rest) (auto simp: delimited_def is_digit_def)

lemma dropWhile_digits:
  "delimited rest \<Longrightarrow> dropWhile is_digit (digits n @ rest) = rest"
  by (simp add: dropWhile_append2 digits_digit delimited_dropWhile)

lemma match_frac_delimited: "delimited rest \<Longrightarrow> match_frac rest = ([], rest)"
  by (cases rest) (auto simp: match_frac_def delimited_def)

lemma match_exp_delimited: "delimited rest \<Longrightarrow> match_exp rest = ([], rest)"
  by (cases rest) (auto simp: match_exp_def delimited_def)


lemma match_integer_digits:
  assumes "delimited rest"
  shows "match_integer (digits n @ rest) = Some (digits n, rest)"
proof -
  obtain d ds where d: "digits n = d # ds" "is_digit d" "d = 0x30 \<longrightarrow> n = 0 \<and> ds = []"
    using digits_Cons by blast
  then have m: "d \<noteq> 0x2D"
    by (auto simp: is_digit_def)
  show ?thesis
  proof (cases "d = 0x30")
    case True
    with d m show ?thesis
      by (simp add: match_integer_def)
  next
    case False
    from takeWhile_digits [OF assms, of n] dropWhile_digits [OF assms, of n] d
    have "takeWhile is_digit (ds @ rest) = ds" "dropWhile is_digit (ds @ rest) = rest"
      by simp_all
    with d m False show ?thesis
      by (simp add: match_integer_def)
  qed
qed

lemma match_integer_minus_digits:
  assumes "delimited rest" "0 < n"
  shows "match_integer (0x2D # digits n @ rest) = Some (0x2D # digits n, rest)"
proof -
  obtain d ds where d: "digits n = d # ds" "is_digit d" "d = 0x30 \<longrightarrow> n = 0 \<and> ds = []"
    using digits_Cons by blast
  with assms have nz: "d \<noteq> 0x30" by auto
  from takeWhile_digits [OF assms(1), of n] dropWhile_digits [OF assms(1), of n] d
  have "takeWhile is_digit (ds @ rest) = ds" "dropWhile is_digit (ds @ rest) = rest"
    by simp_all
  with d nz show ?thesis
    by (simp add: match_integer_def)
qed

lemma int_of_str_int_repr: "int_of_str (int_repr i) = i"
proof (cases "i < 0")
  case True
  then show ?thesis
    by (simp add: int_of_str_def int_repr_def int_of_digits_digits)
next
  case False
  obtain d ds where d: "digits (nat i) = d # ds" "is_digit d"
    using digits_Cons by blast
  then have "d \<noteq> 0x2D"
    by (auto simp: is_digit_def)
  with d have "int_of_str (digits (nat i)) = int (int_of_digits (digits (nat i)))"
    by (simp add: int_of_str_def)
  with False show ?thesis
    by (simp add: int_repr_def int_of_digits_digits)
qed

lemma match_integer_int_repr:
  assumes "delimited rest"
  shows "match_integer (int_repr i @ rest) = Some (int_repr i, rest)"
  using assms
  by (simp add: int_repr_def match_integer_digits match_integer_minus_digits)

lemma match_number_int_repr:
  assumes "delimited rest"
  shows "match_number (int_repr i @ rest) = Some (JInt i, rest)"
  using assms
  by (simp add: match_number_def match_integer_int_repr match_frac_delimited
      match_exp_delimited int_of_str_int_repr)

lemma int_repr_Cons: "\<exists>c cs. int_repr i = c # cs \<and> (c = 0x2D \<or> is_digit c)"
  using digits_Cons [of "nat i"] digits_Cons [of "nat (- i)"]
  by (auto simp: int_repr_def)

lemma scan_constant_number:
  assumes "match_number (c # cs) = Some (v, r)" "c \<noteq> 0x6E" "c \<noteq> 0x74" "c \<noteq> 0x66"
  shows "scan_constant (c # cs) = Inr (v, r)"
  using assms by (simp add: scan_constant_def lit_def)

lemma scan_once_int_repr:
  assumes "delimited rest"
  shows "scan_once (int_repr i @ rest) = Inr (JInt i, rest)"
proof -
  obtain c cs where c: "int_repr i = c # cs" "c = 0x2D \<or> is_digit c"
    using int_repr_Cons by blast
  then have ne: "c \<noteq> 0x22" "c \<noteq> 0x7B" "c \<noteq> 0x5B" "c \<noteq> 0x6E" "c \<noteq> 0x74" "c \<noteq> 0x66"
    by (auto simp: is_digit_def)
  from match_number_int_repr [OF assms, of i] c
  have "match_number (c # cs @ rest) = Some (JInt i, rest)"
    by simp
  then have "scan_constant (c # cs @ rest) = Inr (JInt i, rest)"
    using ne by (intro scan_constant_number)
  with c ne show ?thesis
    by (simp add: scan_once.simps)
qed

text \<open>Arrays, objects and whole documents.\<close>

lemma skip_ws_starts_value: "starts_value s \<Longrightarrow> skip_ws (s @ t) = s @ t"
  by (cases s) (auto simp: starts_value_def skip_ws_def)

lemma skip_ws_Cons: "skip_ws (c # s) = (if is_ws c then skip_ws s else c # s)"
  by (simp add: skip_ws_def)

lemma join_Cons: "xs \<noteq> [] \<Longrightarrow> join sep (x # xs) = x @ sep @ join sep xs"
  by (cases xs) simp_all

lemma scan_array_join:
  assumes "vs \<noteq> []"
    and "\<And>v rest. v \<in> set vs \<Longrightarrow> delimited rest \<Longrightarrow> scan_once (json_dumps v @ rest) = Inr (v, rest)"
    and "\<And>v. v \<in> set vs \<Longrightarrow> starts_value (json_dumps v)"
  shows "scan_array (join (lit '', '') (map json_dumps vs) @ 0x5D # rest) = Inr (vs, rest)"
  using assms
proof (induction vs rule: list_nonempty_induct)
  case (single v)
  have "scan_once (json_dumps v @ 0x5D # rest) = Inr (v, 0x5D # rest)"
    by (rule single(1)) (simp_all add: delimited_def)
  then show ?case
    by (subst scan_array.simps) (simp add: skip_ws_Cons is_ws_def)
next
  case (cons v vs)
  let ?tail = "join (lit '', '') (map json_dumps vs) @ 0x5D # rest"
  have tail: "scan_array ?tail = Inr (vs, rest)"
    by (rule cons.IH) (simp_all add: cons.prems)
  obtain v' vs' where vs: "vs = v' # vs'"
    using cons.hyps by (cases vs) auto
  have "starts_value (json_dumps v')"
    by (rule cons.prems(2)) (simp add: vs)
  then have sv: "starts_value (join (lit '', '') (map json_dumps vs))"
    by (cases vs') (auto simp: vs starts_value_def split: list.splits)
  have head: "scan_once (json_dumps v @ 0x2C # 0x20 # ?tail) = Inr (v, 0x2C # 0x20 # ?tail)"
    by (rule cons.prems(1)) (simp_all add: delimited_def)
  have j: "join (lit '', '') (map json_dumps (v # vs)) @ 0x5D # rest =
      json_dumps v @ 0x2C # 0x20 # ?tail"
    using cons.hyps by (simp add: join_Cons lit_def)
  show ?case
    unfolding j
    by (subst scan_array.simps)
      (simp add: head tail skip_ws_starts_value [OF sv] skip_ws_Cons is_ws_def)
qed

lemma item_Cons:
  "item (k, v) = 0x22 # concat (map escape_char k) @ 0x22 # 0x3A # 0x20 # json_dumps v"
  by (simp add: item_def encode_basestring_ascii_def lit_def)

lemma join_items_Cons:
  assumes "kvs \<noteq> []"
  shows "\<exists>t. join sep (map item kvs) = 0x22 # t"
proof -
  from assms obtain kv kvs' where "kvs = kv # kvs'"
    by (cases kvs) auto
  then show ?thesis
    by (cases kv; cases kvs') (auto simp: item_Cons)
qed

lemma scan_object_join:
  assumes "kvs \<noteq> []"
    and "\<And>k v rest. (k, v) \<in> set kvs \<Longrightarrow> delimited rest \<Longrightarrow>
           scan_once (json_dumps v @ rest) = Inr (v, rest)"
    and "\<And>k v. (k, v) \<in> set kvs \<Longrightarrow> valid_text k \<and> starts_value (json_dumps v)"
  shows "scan_object (tl (join (lit '', '') (map item kvs)) @ 0x7D # rest) = Inr (kvs, rest)"
  using assms
proof (induction kvs rule: list_nonempty_induct)
  case (single kv)
  obtain k v where kv: "kv = (k, v)" by (cases kv)
  have k: "valid_text k" and sv: "starts_value (json_dumps v)"
    using single(2) [of k v] by (simp_all add: kv)
  have key: "scanstring (concat (map escape_char k) @ 0x22 # 0x3A # 0x20 # json_dumps v @ 0x7D # rest)
      = Inr (k, 0x3A # 0x20 # json_dumps v @ 0x7D # rest)"
    by (rule scanstring_escaped [OF k])
  have val: "scan_once (json_dumps v @ 0x7D # rest) = Inr (v, 0x7D # rest)"
    by (rule single(1) [of k]) (simp_all add: kv delimited_def)
  show ?case
    by (subst scan_object.simps)
      (simp add: kv item_Cons key val skip_ws_starts_value [OF sv] skip_ws_Cons is_ws_def)
next
  case (cons kv kvs)
  obtain k v where kv: "kv = (k, v)" by (cases kv)
  have k: "valid_text k" and sv: "starts_value (json_dumps v)"
    using cons.prems(2) [of k v] by (simp_all add: kv)
  obtain t where t: "join (lit '', '') (map item kvs) = 0x22 # t"
    using join_items_Cons [OF cons.hyps(1)] by blast
  have "scan_object (tl (join (lit '', '') (map item kvs)) @ 0x7D # rest) = Inr (kvs, rest)"
  proof (rule cons.IH)
    fix k' v' rest'
    assume "(k', v') \<in> set kvs" "delimited rest'"
    then show "scan_once (json_dumps v' @ rest') = Inr (v', rest')"
      using cons.prems(1) [of k' v' rest'] by simp
  next
    fix k' v'
    assume "(k', v') \<in> set kvs"
    then show "valid_text k' \<and> starts_value (json_dumps v')"
      using cons.prems(2) [of k' v'] by simp
  qed
  then have tail: "scan_object (t @ 0x7D # rest) = Inr (kvs, rest)"
    by (simp add: t)
  let ?after = "0x2C # 0x20 # 0x22 # t @ 0x7D # rest"
  have key: "scanstring (concat (map escape_char k) @ 0x22 # 0x3A # 0x20 # json_dumps v @ ?after)
      = Inr (k, 0x3A # 0x20 # json_dumps v @ ?after)"
    by (rule scanstring_escaped [OF k])
  have val: "scan_once (json_dumps v @ ?after) = Inr (v, ?after)"
    by (rule cons.prems(1) [of k]) (simp_all add: kv delimited_def)
  have j: "tl (join (lit '', '') (map item (kv # kvs))) @ 0x7D # rest =
      concat (map escape_char k) @ 0x22 # 0x3A # 0x20 # json_dumps v @ ?after"
    using cons.hyps t by (simp add: join_Cons kv item_Cons lit_def)
  show ?case
    unfolding j
    by (subst scan_object.simps)
      (simp add: kv key val tail skip_ws_starts_value [OF sv] skip_ws_Cons is_ws_def)
qed

lemma dict_distinct_aux:
  "distinct (map fst (acc @ ps)) \<Longrightarrow>
     foldl (\<lambda>d (k, v). AList.update k v d) acc ps = acc @ ps"
proof (induction ps arbitrary: acc)
  case Nil
  then show ?case by simp
next
  case (Cons p ps)
  obtain k v where p: "p = (k, v)" by (cases p)
  from Cons.prems have "k \<notin> fst ` set acc"
    by (auto simp: p)
  then have u: "AList.update k v acc = acc @ [(k, v)]"
    by (induction acc) auto
  from Cons.prems have "distinct (map fst ((acc @ [(k, v)]) @ ps))"
    by (simp add: p)
  from Cons.IH [OF this] show ?case
    by (simp add: p u)
qed

lemma dict_distinct: "distinct (map fst ps) \<Longrightarrow> dict ps = ps"
  using dict_distinct_aux [of "[]" ps] by (simp add: dict_def)

lemma starts_value_dumps: "encodable v \<Longrightarrow> starts_value (json_dumps v)"
proof (cases v)
  case (JInt i)
  obtain c cs where "int_repr i = c # cs" "c = 0x2D \<or> is_digit c"
    using int_repr_Cons by blast
  with JInt show ?thesis
    by (auto simp: starts_value_def is_ws_def is_digit_def)
qed (auto simp: starts_value_def is_ws_def lit_def encode_basestring_ascii_def)

lemma scan_once_dumps:
  "encodable v \<Longrightarrow> delimited rest \<Longrightarrow> scan_once (json_dumps v @ rest) = Inr (v, rest)"
proof (induction v arbitrary: rest)
  case JNull
  show ?case
    by (simp add: scan_once.simps scan_constant_def lit_def)
next
  case (JBool b)
  show ?case
    by (simp add: scan_once.simps scan_constant_def lit_def)
next
  case (JInt i)
  then show ?case
    by (simp add: scan_once_int_repr)
next
  case (JFloat l)
  then show ?case by simp
next
  case (JStr s)
  then show ?case
    by (simp add: scan_once_encoded_string)
next
  case (JArr vs)
  show ?case
  proof (cases "vs = []")
    case True
    then show ?thesis
      by (simp add: scan_once.simps skip_ws_Cons is_ws_def)
  next
    case False
    let ?body = "join (lit '', '') (map json_dumps vs)"
    have a: "scan_array (?body @ 0x5D # rest) = Inr (vs, rest)"
      using False JArr.IH JArr.prems(1)
      by (intro scan_array_join) (auto simp: starts_value_dumps)
    obtain v' vs' where vs: "vs = v' # vs'"
      using False by (cases vs) auto
    have "starts_value (json_dumps v')"
      using JArr.prems(1) by (simp add: vs starts_value_dumps)
    then have "starts_value ?body"
      by (cases vs') (auto simp: vs starts_value_def split: list.splits)
    then obtain d r where b: "?body = d # r" "\<not> is_ws d" "d \<noteq> 0x5D"
      by (auto simp: starts_value_def split: list.splits)
    with a show ?thesis
      by (simp add: scan_once.simps skip_ws_Cons)
  qed
next
  case (JObj kvs)
  from JObj.prems(1) have dist: "distinct (map fst kvs)" by simp
  show ?case
  proof (cases "kvs = []")
    case True
    then show ?thesis
      by (simp add: scan_once.simps skip_ws_Cons is_ws_def dict_def)
  next
    case False
    have m: "map (\<lambda>(k, v). encode_basestring_ascii k @ lit '': '' @ json_dumps v) kvs = map item kvs"
      by (simp add: item_def)
    obtain t where t: "join (lit '', '') (map item kvs) = 0x22 # t"
      using join_items_Cons [OF False] by blast
    have "scan_object (tl (join (lit '', '') (map item kvs)) @ 0x7D # rest) = Inr (kvs, rest)"
    proof (rule scan_object_join [OF False])
      fix k v rest'
      assume "(k, v) \<in> set kvs" "delimited rest'"
      with JObj.IH [of "(k, v)" v rest'] JObj.prems(1)
      show "scan_once (json_dumps v @ rest') = Inr (v, rest')"
        by auto
    next
      fix k v
      assume "(k, v) \<in> set kvs"
      with JObj.prems(1) show "valid_text k \<and> starts_value (json_dumps v)"
        by (auto simp: starts_value_dumps)
    qed
    then have "scan_object (t @ 0x7D # rest) = Inr (kvs, rest)"
      by (simp add: t)
    then show ?thesis
      by (simp add: m t scan_once.simps skip_ws_Cons is_ws_def dict_distinct [OF dist])
  qed
qed

lemma json_loads_dumps: "encodable v \<Longrightarrow> json_loads (json_dumps v) = Inr v"
proof -
  assume e: "encodable v"
  then have "scan_once (json_dumps v @ []) = Inr (v, [])"
    by (rule scan_once_dumps) (simp add: delimited_def)
  moreover have "skip_ws (json_dumps v) = json_dumps v"
    using skip_ws_starts_value [OF starts_value_dumps [OF e], of "[]"] by simp
  ultimately show ?thesis
    by (simp add: json_loads_def skip_ws_def)
qed

text \<open>
  The hypothesis on strings cannot be weakened: a high surrogate directly followed by a
  low surrogate is printed as two escapes, which the decoder joins into one code point.
\<close>

lemma surrogate_pair_is_joined:
  "json_loads (json_dumps (JStr [0xD800, 0xDC00])) = Inr (JStr [0x10000])"
  by (simp add: json_loads_def skip_ws_def is_ws_def scan_once.simps
      encode_basestring_ascii_def escape_char_def hex4_def hexdigit_def
      scan_escape_def decode_uXXXX_def hexval_def)

subsection \<open>The dumped records\<close>

lemma lit_distinct_keys:
  "distinct [lit ''title'', lit ''author'', lit ''id'', lit ''reviews'']"
  "distinct [lit ''content'', lit ''id'']"
  by (simp_all add: lit_def)

lemma valid_text_lit_keys:
  "valid_text (lit ''title'')" "valid_text (lit ''author'')" "valid_text (lit ''id'')"
  "valid_text (lit ''reviews'')" "valid_text (lit ''content'')"
  by (rule valid_text_scalar, simp add: lit_def scalar_def)+

lemma encodable_ReviewOut: "valid_ReviewOut r \<Longrightarrow> encodable (ReviewOut_model_dump r)"
  using lit_distinct_keys
  by (simp add: ReviewOut_model_dump_def valid_ReviewOut_def valid_text_lit_keys)

lemma encodable_BookOut: "valid_BookOut b \<Longrightarrow> encodable (BookOut_model_dump b)"
  using lit_distinct_keys
  by (simp add: BookOut_model_dump_def valid_BookOut_def valid_text_lit_keys encodable_ReviewOut)

lemma valid_BookOut_validate:
  "valid_database d \<Longrightarrow> b \<in> set (books d) \<Longrightarrow> valid_BookOut (BookOut_model_validate d b)"
  by (auto simp: valid_database_def valid_BookOut_def BookOut_model_validate_def
      valid_ReviewOut_def ReviewOut_model_validate_def get_reviews_by_book_id_def)

lemma encodable_snapshot: "valid_database d \<Longrightarrow> encodable (snapshot d)"
  by (simp add: snapshot_def encodable_BookOut valid_BookOut_validate)

lemma ReviewOut_model_dump_inject:
  "ReviewOut_model_dump r = ReviewOut_model_dump r' \<Longrightarrow> r = r'"
  by (cases r; cases r') (simp add: ReviewOut_model_dump_def)

lemma BookOut_model_dump_inject:
  assumes "BookOut_model_dump b = BookOut_model_dump b'"
  shows "b = b'"
proof -
  from assms have f: "bo_title b = bo_title b'" "bo_author b = bo_author b'" "bo_id b = bo_id b'"
    and "map ReviewOut_model_dump (bo_reviews b) = map ReviewOut_model_dump (bo_reviews b')"
    by (simp_all add: BookOut_model_dump_def)
  then have "bo_reviews b = bo_reviews b'"
    by (auto simp: inj_on_def dest: ReviewOut_model_dump_inject
        intro!: map_inj_on [of ReviewOut_model_dump])
  with f show ?thesis
    by (cases b; cases b') simp
qed

subsection \<open>Example states\<close>

text \<open>
  A store with one book and one review of it; a cache backend at time 10 that holds
  either nothing or one value under the key of the listing, expiring at time 300, with a
  given schedule of faults; the world made of both, with nothing printed yet.
  \<open>warm_world\<close> is the world after a listing has filled the cache from this store.
\<close>

definition example_db :: database where
  "example_db =
     \<lparr>books = [\<lparr>b_id = 1, b_title = lit ''Atomic Habits'', b_author = lit ''James Clear''\<rparr>],
      reviews = [\<lparr>r_id = 1, r_content = lit ''Worth reading'', r_book_id = Some 1\<rparr>],
      select_count = 0\<rparr>"

definition example_cache :: "pystr option \<Rightarrow> exn option list \<Rightarrow> redis" where
  "example_cache v fs =
     \<lparr>entries = (case v of None \<Rightarrow> Map.empty | Some x \<Rightarrow> [cache_key \<mapsto> (x, 300)]),
      clock = 10, faults = fs\<rparr>"

definition example_world :: "pystr option \<Rightarrow> exn option list \<Rightarrow> world" where
  "example_world v fs = \<lparr>cache = example_cache v fs, db = example_db, stdout = []\<rparr>"



definition example_books :: "BookOut list" where
  "example_books =
     [\<lparr>bo_title = lit ''Les Mis'' @ [0xE9] @ lit ''rables '' @ [0x1F4D6],
       bo_author = lit ''Victor Hugo'', bo_id = 1,
       bo_reviews = [\<lparr>ro_content = [0x22] @ lit ''Grand'' @ [0x22, 0x0A], ro_id = 7\<rparr>]\<rparr>,
      \<lparr>bo_title = lit ''Atomic Habits'', bo_author = lit ''James Clear'', bo_id = 2,
       bo_reviews = []\<rparr>]"

lemma example_world_sel:
  "cache (example_world v fs) = example_cache v fs"
  "db (example_world v fs) = example_db"
  "stdout (example_world v fs) = []"
  by (simp_all add: example_world_def)

lemma example_cache_sel:
  "entries (example_cache (Some x) fs) = [cache_key \<mapsto> (x, 300)]"
  "entries (example_cache None fs) = Map.empty"
  "clock (example_cache v fs) = 10"
  "faults (example_cache v fs) = fs"
  by (simp_all add: example_cache_def)

lemma example_cache_faults:
  "(example_cache v (f # fs))\<lparr>faults := fs\<rparr> = example_cache v fs"
  by (simp add: example_cache_def)

subsection \<open>The two halves of \<^verbatim>\<open>list_books\<close>\<close>

text \<open>
  The miss path answers with the collection of the store whatever the write does, and
  issues one book query. The first \<^verbatim>\<open>try\<close> block touches neither the store nor the
  entries and the clock of the backend, and it leaves without a value in exactly four
  cases: the read raises, the key is absent, the value is empty, the value does not
  decode.
\<close>

lemma validate_select_count:
  "BookOut_model_validate (d\<lparr>select_count := n\<rparr>) = BookOut_model_validate d"
  by (rule ext) (simp add: BookOut_model_validate_def get_reviews_by_book_id_def)

lemma fetch_from_db_result: "fst (fetch_from_db w) = Inr (snapshot (db w))"
  by (simp add: fetch_from_db_def snapshot_def get_books_def print_def Let_def
      validate_select_count split: prod.splits sum.splits)

lemma fetch_from_db_db:
  "db (snd (fetch_from_db w)) = (db w)\<lparr>select_count := Suc (select_count (db w))\<rparr>"
  by (simp add: fetch_from_db_def get_books_def print_def Let_def
      split: prod.splits sum.splits)

lemma fetch_from_db_select_count:
  "select_count (db (snd (fetch_from_db w))) = Suc (select_count (db w))"
  by (simp add: fetch_from_db_db)

lemma fetch_from_db_write:
  assumes "redis_setex (cache w) cache_key 300 (json_dumps (snapshot (db w))) = (r, c)"
  shows "cache (snd (fetch_from_db w)) = c"
    and "stdout (snd (fetch_from_db w)) =
      stdout w @ Cache_Miss # (case r of Inl e \<Rightarrow> [Redis_couldnt_set_cache e] | Inr _ \<Rightarrow> [])"
  using assms
  by (simp_all add: fetch_from_db_def snapshot_def get_books_def print_def Let_def
      validate_select_count split: prod.splits sum.splits)

lemma next_fault_frame:
  "entries (snd (next_fault c)) = entries c" "clock (snd (next_fault c)) = clock c"
  by (simp_all add: next_fault_def split: list.splits)

lemma redis_get_frame:
  "entries (snd (redis_get c k)) = entries c" "clock (snd (redis_get c k)) = clock c"
  using next_fault_frame [of c]
  by (auto simp: redis_get_def split: prod.splits option.splits)

lemma redis_setex_ok:
  assumes "fst (redis_setex c k ttl v) = Inr ()"
  shows "entries (snd (redis_setex c k ttl v)) = (entries c)(k \<mapsto> (v, clock c + ttl))"
    and "clock (snd (redis_setex c k ttl v)) = clock c"
  using assms next_fault_frame [of c]
  by (auto simp: redis_setex_def split: prod.splits option.splits)

lemma check_redis_cache: "cache (snd (check_redis w)) = snd (redis_get (cache w) cache_key)"
  by (simp add: check_redis_def print_def Let_def split: prod.splits sum.splits option.splits)

lemma check_redis_db: "db (snd (check_redis w)) = db w"
  by (simp add: check_redis_def print_def Let_def split: prod.splits sum.splits option.splits)

lemma check_redis_frame:
  "entries (cache (snd (check_redis w))) = entries (cache w)"
  "clock (cache (snd (check_redis w))) = clock (cache w)"
  by (simp_all add: check_redis_cache redis_get_frame)

lemma check_redis_None_iff:
  "fst (check_redis w) = None \<longleftrightarrow>
     (case fst (redis_get (cache w) cache_key) of
        Inl e \<Rightarrow> True
      | Inr None \<Rightarrow> True
      | Inr (Some v) \<Rightarrow> v = [] \<or> (\<exists>e. json_loads v = Inl e))"
  by (auto simp: check_redis_def Let_def split: prod.splits sum.splits option.splits)


lemma list_books_miss:
  "fst (check_redis w) = None \<Longrightarrow> list_books w = fetch_from_db (snd (check_redis w))"
  by (cases "check_redis w") (simp add: list_books_def)

lemma list_books_hit:
  "fst (check_redis w) = Some j \<Longrightarrow> list_books w = (Inr j, snd (check_redis w))"
  by (cases "check_redis w") (simp add: list_books_def)

text \<open>Evaluations on the example states.\<close>

lemma json_loads_empty_array: "json_loads (lit ''[]'') = Inr (JArr [])"
  by (simp add: json_loads_def lit_def skip_ws_def is_ws_def scan_once.simps)

lemma json_loads_not_json: "json_loads (lit ''not json'') = Inl JSONDecodeError"
  by (simp add: json_loads_def lit_def skip_ws_def is_ws_def scan_once.simps
      scan_constant_def match_number_def match_integer_def is_digit_def)

lemma example_serialized:
  \<open>json_dumps (snapshot example_db) =
     lit ''[{"title": "Atomic Habits", "author": "James Clear", "id": 1, "reviews": [{"content": "Worth reading", "id": 1}]}]''\<close>
  by (simp add: snapshot_def example_db_def BookOut_model_validate_def BookOut_model_dump_def
      ReviewOut_model_validate_def ReviewOut_model_dump_def get_reviews_by_book_id_def
      encode_basestring_ascii_def escape_char_def int_repr_def digits.simps lit_def)

lemma valid_example_db: "valid_database example_db"
  by (simp add: valid_database_def example_db_def valid_text_scalar scalar_def lit_def)

lemma check_redis_example_cold:
  "check_redis (example_world None (None # fs)) =
     (None, (example_world None (None # fs))\<lparr>cache := example_cache None fs\<rparr>)"
  "check_redis (example_world None []) =
     (None, (example_world None [])\<lparr>cache := example_cache None []\<rparr>)"
  by (simp_all add: check_redis_def redis_get_def next_fault_def live_value_def
      example_world_sel example_cache_sel example_cache_faults)


subsection \<open>The store\<close>




lemma foreign_key_holds_insert_book:
  "foreign_key_holds d \<Longrightarrow> foreign_key_holds (snd (insert_book d t a))"
  by (auto simp: foreign_key_holds_def insert_book_def Let_def split: option.splits)

lemma foreign_key_holds_insert_review:
  "foreign_key_holds d \<Longrightarrow> foreign_key_holds (snd (insert_review d c bid))"
  by (auto simp: foreign_key_holds_def insert_review_def Let_def split: option.splits)

lemma foreign_key_holds_empty:
  "foreign_key_holds \<lparr>books = [], reviews = [], select_count = n\<rparr>"
  by (simp add: foreign_key_holds_def)

lemma add_book_world:
  "snd (add_book w book) = w\<lparr>db := snd (create_book (db w) book)\<rparr>"
  "fst (add_book w book) = Inr (fst (create_book (db w) book))"
  by (simp_all add: add_book_def split: prod.splits)

lemma add_review_world:
  "snd (add_review w book_id review) = w\<lparr>db := snd (crud_add_review (db w) book_id review)\<rparr>"
  by (simp add: add_review_def split: prod.splits)

lemma foreign_key_holds_handlers:
  assumes "foreign_key_holds (db w)"
  shows "foreign_key_holds (db (snd (add_book w book)))"
    and "foreign_key_holds (db (snd (add_review w book_id review)))"
    and "foreign_key_holds (db (snd (list_books w)))"
    and "foreign_key_holds (db (snd (get_reviews w book_id)))"
proof -
  show "foreign_key_holds (db (snd (add_book w book)))"
    using assms by (simp add: add_book_world create_book_def foreign_key_holds_insert_book)
  show "foreign_key_holds (db (snd (add_review w book_id review)))"
    using assms by (simp add: add_review_world crud_add_review_def foreign_key_holds_insert_review)
  have "foreign_key_holds (db (snd (fetch_from_db w')))" if "foreign_key_holds (db w')" for w'
    using that by (simp add: fetch_from_db_db foreign_key_holds_def cong: option.case_cong)
  with assms show "foreign_key_holds (db (snd (list_books w)))"
    by (cases "fst (check_redis w)") (simp_all add: list_books_miss list_books_hit check_redis_db)
  show "foreign_key_holds (db (snd (get_reviews w book_id)))"
    using assms by (simp add: get_reviews_def)
qed


section \<open>Properties of the service\<close>

text \<open>
  C1. When the read of \<^verbatim>\<open>"all_books"\<close> succeeds with a non-empty value that decodes,
  \<^verbatim>\<open>list_books\<close> returns exactly the decoded value and leaves the store as it was: no
  book query is issued (\<open>select_count\<close> is part of the store).
\<close>

theorem list_books_cache_hit:
  assumes "redis_get (cache w) cache_key = (Inr (Some v), c)"
    and "v \<noteq> []"
    and "json_loads v = Inr j"
  shows "fst (list_books w) = Inr j \<and> db (snd (list_books w)) = db w"
  using assms by (simp add: list_books_def check_redis_def print_def Let_def)

theorem list_books_cache_hit_witness:
  "redis_get (cache (example_world (Some (lit ''[]'')) [])) cache_key
     = (Inr (Some (lit ''[]'')), example_cache (Some (lit ''[]'')) [])
   \<and> lit ''[]'' \<noteq> []
   \<and> json_loads (lit ''[]'') = Inr (JArr [])
   \<and> fst (list_books (example_world (Some (lit ''[]'')) [])) = Inr (JArr [])
   \<and> db (snd (list_books (example_world (Some (lit ''[]'')) []))) = example_db"
proof -
  have g: "redis_get (cache (example_world (Some (lit ''[]'')) [])) cache_key
     = (Inr (Some (lit ''[]'')), example_cache (Some (lit ''[]'')) [])"
    by (simp add: example_world_sel example_cache_sel redis_get_def next_fault_def
        live_value_def)
  have n: "lit ''[]'' \<noteq> []"
    by (simp add: lit_def)
  from list_books_cache_hit [OF g n json_loads_empty_array] g n json_loads_empty_array
  show ?thesis
    by (simp add: example_world_sel)
qed

text \<open>
  C2. When the read of \<^verbatim>\<open>"all_books"\<close> raises, whatever the error, \<^verbatim>\<open>list_books\<close> does not
  raise: it prints the error, continues with the code of the miss path, issues the book
  query and returns the collection of the store.
\<close>

theorem list_books_cache_error:
  assumes "redis_get (cache w) cache_key = (Inl e, c)"
  shows "list_books w = fetch_from_db (print (Redis_skipping_cache e) (w\<lparr>cache := c\<rparr>))
    \<and> fst (list_books w) = Inr (snapshot (db w))
    \<and> select_count (db (snd (list_books w))) = Suc (select_count (db w))"
proof -
  from assms have cr: "check_redis w = (None, print (Redis_skipping_cache e) (w\<lparr>cache := c\<rparr>))"
    by (simp add: check_redis_def)
  then have lb: "list_books w = fetch_from_db (print (Redis_skipping_cache e) (w\<lparr>cache := c\<rparr>))"
    by (simp add: list_books_def)
  show ?thesis
    by (simp add: lb fetch_from_db_result fetch_from_db_select_count print_def)
qed

theorem list_books_cache_error_witness:
  "redis_get (cache (example_world None [Some ConnectionError, Some ConnectionError])) cache_key
     = (Inl ConnectionError, example_cache None [Some ConnectionError])
   \<and> fst (list_books (example_world None [Some ConnectionError, Some ConnectionError]))
     = Inr (snapshot example_db)
   \<and> select_count (db (snd (list_books (example_world None [Some ConnectionError, Some ConnectionError])))) = 1"
proof -
  have g: "redis_get (cache (example_world None [Some ConnectionError, Some ConnectionError])) cache_key
     = (Inl ConnectionError, example_cache None [Some ConnectionError])"
    by (simp add: example_world_sel example_cache_sel example_cache_faults redis_get_def
        next_fault_def)
  have "select_count example_db = 0"
    by (simp add: example_db_def)
  with list_books_cache_error [OF g, THEN conjunct2] g show ?thesis
    by (simp add: example_world_sel)
qed

text \<open>
  C3. On the miss path, when the write to the cache succeeds, \<^verbatim>\<open>"all_books"\<close> afterwards
  holds the serialization of the very collection returned to the caller, expiring
  exactly 300 seconds after the write: still readable 299 seconds later, gone after 300.
  When no string of the store has a high surrogate directly followed by a low one, the
  stored value decodes to the returned collection.
\<close>

theorem list_books_miss_populates_cache:
  assumes "fst (check_redis w) = None"
    and "fst (redis_setex (cache (snd (check_redis w))) cache_key 300
               (json_dumps (snapshot (db w)))) = Inr ()"
  shows "fst (list_books w) = Inr (snapshot (db w))
    \<and> entries (cache (snd (list_books w))) cache_key
        = Some (json_dumps (snapshot (db w)), clock (cache w) + 300)
    \<and> live_value (advance 299 (cache (snd (list_books w)))) cache_key
        = Some (json_dumps (snapshot (db w)))
    \<and> live_value (advance 300 (cache (snd (list_books w)))) cache_key = None
    \<and> (valid_database (db w) \<longrightarrow>
         json_loads (json_dumps (snapshot (db w))) = Inr (snapshot (db w)))"
proof -
  let ?w1 = "snd (check_redis w)"
  let ?v = "json_dumps (snapshot (db w))"
  have lb: "list_books w = fetch_from_db ?w1"
    by (rule list_books_miss) (rule assms)
  have d: "db ?w1 = db w"
    by (rule check_redis_db)
  obtain r c where rc: "redis_setex (cache ?w1) cache_key 300 ?v = (r, c)"
    by (cases "redis_setex (cache ?w1) cache_key 300 ?v")
  then have c: "cache (snd (list_books w)) = c"
    using fetch_from_db_write(1) [of ?w1 r c] by (simp add: lb d)
  from rc have c': "c = snd (redis_setex (cache ?w1) cache_key 300 ?v)"
    by simp
  have e: "entries c = (entries (cache ?w1))(cache_key \<mapsto> (?v, clock (cache ?w1) + 300))"
    and k: "clock c = clock (cache ?w1)"
    unfolding c' by (rule redis_setex_ok [OF assms(2)])+
  have r: "fst (list_books w) = Inr (snapshot (db w))"
    by (simp add: lb fetch_from_db_result d)
  show ?thesis
    by (simp add: r c e k check_redis_frame live_value_def advance_def encodable_snapshot
        json_loads_dumps)
qed

theorem list_books_miss_populates_cache_witness:
  \<open>fst (check_redis (example_world None [])) = None
   \<and> fst (redis_setex (cache (snd (check_redis (example_world None [])))) cache_key 300
             (json_dumps (snapshot example_db))) = Inr ()
   \<and> valid_database example_db
   \<and> fst (list_books (example_world None [])) = Inr (snapshot example_db)
   \<and> entries (cache (snd (list_books (example_world None [])))) cache_key
       = Some (lit ''[{"title": "Atomic Habits", "author": "James Clear", "id": 1, "reviews": [{"content": "Worth reading", "id": 1}]}]'', 310)
   \<and> live_value (advance 299 (cache (snd (list_books (example_world None []))))) cache_key
       = Some (json_dumps (snapshot example_db))
   \<and> live_value (advance 300 (cache (snd (list_books (example_world None []))))) cache_key = None
   \<and> json_loads (json_dumps (snapshot example_db)) = Inr (snapshot example_db)\<close>
proof -
  have m: "fst (check_redis (example_world None [])) = None"
    by (simp add: check_redis_example_cold)
  have s: "fst (redis_setex (cache (snd (check_redis (example_world None [])))) cache_key 300
             (json_dumps (snapshot (db (example_world None []))))) = Inr ()"
    by (simp add: check_redis_example_cold redis_setex_def next_fault_def example_cache_sel)
  from list_books_miss_populates_cache [OF m s] m s valid_example_db show ?thesis
    by (simp add: example_world_sel example_cache_sel example_serialized [symmetric])
qed

text \<open>
  C4. On the miss path the caller receives the collection of the store whatever the
  outcome \<open>r\<close> of the write to the cache: an error of the write is printed and nothing
  else.
\<close>

theorem list_books_write_error_swallowed:
  assumes "fst (check_redis w) = None"
    and "redis_setex (cache (snd (check_redis w))) cache_key 300
           (json_dumps (snapshot (db w))) = (r, c)"
  shows "fst (list_books w) = Inr (snapshot (db w))
    \<and> stdout (snd (list_books w)) =
        stdout (snd (check_redis w)) @
          Cache_Miss # (case r of Inl e \<Rightarrow> [Redis_couldnt_set_cache e] | Inr _ \<Rightarrow> [])"
proof -
  have lb: "list_books w = fetch_from_db (snd (check_redis w))"
    by (rule list_books_miss) (rule assms)
  have d: "db (snd (check_redis w)) = db w"
    by (rule check_redis_db)
  from assms(2) fetch_from_db_write(2) [of "snd (check_redis w)" r c] show ?thesis
    by (simp add: lb fetch_from_db_result d)
qed

theorem list_books_write_error_swallowed_witness:
  "fst (check_redis (example_world None [None, Some TimeoutError])) = None
   \<and> redis_setex (cache (snd (check_redis (example_world None [None, Some TimeoutError]))))
        cache_key 300 (json_dumps (snapshot example_db))
       = (Inl TimeoutError, example_cache None [])
   \<and> fst (list_books (example_world None [None, Some TimeoutError])) = Inr (snapshot example_db)
   \<and> stdout (snd (list_books (example_world None [None, Some TimeoutError])))
       = [Cache_Miss, Redis_couldnt_set_cache TimeoutError]
   \<and> fst (list_books (example_world None [None, None])) = Inr (snapshot example_db)"
proof -
  let ?w = "example_world None [None, Some TimeoutError]"
  have m: "fst (check_redis ?w) = None"
    by (simp add: check_redis_example_cold)
  have s: "redis_setex (cache (snd (check_redis ?w))) cache_key 300
        (json_dumps (snapshot (db ?w))) = (Inl TimeoutError, example_cache None [])"
    by (simp add: check_redis_example_cold redis_setex_def next_fault_def example_cache_sel
        example_cache_faults)
  have m': "fst (check_redis (example_world None [None, None])) = None"
    by (simp add: check_redis_example_cold)
  obtain r c where s': "redis_setex (cache (snd (check_redis (example_world None [None, None]))))
      cache_key 300 (json_dumps (snapshot (db (example_world None [None, None])))) = (r, c)"
    by (cases "redis_setex (cache (snd (check_redis (example_world None [None, None]))))
      cache_key 300 (json_dumps (snapshot (db (example_world None [None, None]))))")
  from list_books_write_error_swallowed [OF m s]
    list_books_write_error_swallowed [OF m' s', THEN conjunct1] m s
  show ?thesis
    by (simp add: example_world_sel check_redis_example_cold)
qed



text \<open>
  C6. \<^verbatim>\<open>add_review\<close> for a \<^verbatim>\<open>book_id\<close> that no book has fails with the constraint violation
  of the store, which reaches the caller; nothing is stored.
\<close>

theorem add_review_unknown_book:
  assumes "book_id \<notin> set (map b_id (books (db w)))"
  shows "add_review w book_id review = (Inl IntegrityError, w)"
  using assms
  by (simp add: add_review_def crud_add_review_def insert_review_def)

theorem add_review_unknown_book_witness:
  "99 \<notin> set (map b_id (books (db (example_world None []))))
   \<and> add_review (example_world None []) 99 \<lparr>rc_content = lit ''Nice''\<rparr>
       = (Inl IntegrityError, example_world None [])"
proof -
  have n: "99 \<notin> set (map b_id (books (db (example_world None []))))"
    by (simp add: example_world_sel example_db_def)
  from add_review_unknown_book [OF n] n show ?thesis
    by blast
qed

text \<open>
  C7. For every collection of book records with nested reviews in whose strings no high
  surrogate is directly followed by a low surrogate (every collection read from the
  store is one), \<^verbatim>\<open>json.loads(json.dumps(result))\<close> is \<^verbatim>\<open>result\<close>, the list of dumped
  records; and the dumped records determine every field (\<^verbatim>\<open>id\<close>, \<^verbatim>\<open>title\<close>, \<^verbatim>\<open>author\<close>, and
  \<^verbatim>\<open>id\<close> and \<^verbatim>\<open>content\<close> of every review), so the deserialized value is field-equal to
  the records that were serialized.
\<close>

theorem snapshot_roundtrip:
  assumes "\<forall>b\<in>set bs. valid_BookOut b"
  shows "json_loads (json_dumps (JArr (map BookOut_model_dump bs))) = Inr (JArr (map BookOut_model_dump bs))
    \<and> (\<forall>bs'. map BookOut_model_dump bs' = map BookOut_model_dump bs \<longrightarrow> bs' = bs)"
proof
  from assms have "encodable (JArr (map BookOut_model_dump bs))"
    by (simp add: encodable_BookOut)
  then show "json_loads (json_dumps (JArr (map BookOut_model_dump bs))) = Inr (JArr (map BookOut_model_dump bs))"
    by (rule json_loads_dumps)
next
  show "\<forall>bs'. map BookOut_model_dump bs' = map BookOut_model_dump bs \<longrightarrow> bs' = bs"
    by (auto simp: inj_on_def dest: BookOut_model_dump_inject
        intro!: map_inj_on [of BookOut_model_dump])
qed

theorem snapshot_roundtrip_witness:
  "list_all valid_BookOut example_books
   \<and> json_loads (json_dumps (JArr (map BookOut_model_dump example_books)))
       = Inr (JArr (map BookOut_model_dump example_books))"
proof -
  have v: "\<forall>b\<in>set example_books. valid_BookOut b"
    by (simp add: example_books_def valid_BookOut_def valid_ReviewOut_def valid_text_scalar
        scalar_def lit_def)
  from snapshot_roundtrip [OF v] v show ?thesis
    by (simp add: list_all_iff)
qed

text \<open>
  C8. When the read of \<^verbatim>\<open>"all_books"\<close> succeeds with a non-empty value that
  \<^verbatim>\<open>json.loads\<close> refuses, \<^verbatim>\<open>list_books\<close> does not raise: the error is caught by the
  handler that catches the errors of the backend (the same line is printed, after
  \<^verbatim>\<open>Cache Hit\<close>), and the listing is fetched from the store.
\<close>

theorem list_books_undecodable_entry:
  assumes "redis_get (cache w) cache_key = (Inr (Some v), c)"
    and "v \<noteq> []"
    and "json_loads v = Inl e"
  shows "list_books w =
      fetch_from_db (print (Redis_skipping_cache e) (print Cache_Hit (w\<lparr>cache := c\<rparr>)))
    \<and> fst (list_books w) = Inr (snapshot (db w))
    \<and> select_count (db (snd (list_books w))) = Suc (select_count (db w))"
proof -
  from assms have lb: "list_books w =
      fetch_from_db (print (Redis_skipping_cache e) (print Cache_Hit (w\<lparr>cache := c\<rparr>)))"
    by (simp add: list_books_def check_redis_def Let_def)
  show ?thesis
    by (simp add: lb fetch_from_db_result fetch_from_db_select_count print_def)
qed

theorem list_books_undecodable_entry_witness:
  "redis_get (cache (example_world (Some (lit ''not json'')) [])) cache_key
     = (Inr (Some (lit ''not json'')), example_cache (Some (lit ''not json'')) [])
   \<and> lit ''not json'' \<noteq> []
   \<and> json_loads (lit ''not json'') = Inl JSONDecodeError
   \<and> fst (list_books (example_world (Some (lit ''not json'')) [])) = Inr (snapshot example_db)
   \<and> select_count (db (snd (list_books (example_world (Some (lit ''not json'')) [])))) = 1"
proof -
  let ?w = "example_world (Some (lit ''not json'')) []"
  have g: "redis_get (cache ?w) cache_key
     = (Inr (Some (lit ''not json'')), example_cache (Some (lit ''not json'')) [])"
    by (simp add: example_world_sel example_cache_sel redis_get_def next_fault_def
        live_value_def)
  have n: "lit ''not json'' \<noteq> []"
    by (simp add: lit_def)
  have "select_count example_db = 0"
    by (simp add: example_db_def)
  with list_books_undecodable_entry [OF g n json_loads_not_json, THEN conjunct2]
    g n json_loads_not_json
  show ?thesis
    by (simp add: example_world_sel)
qed

text \<open>
  C9. When the read of \<^verbatim>\<open>"all_books"\<close> succeeds with the empty string, \<^verbatim>\<open>list_books\<close>
  treats it as a miss: it queries the store and returns its collection.
\<close>

theorem list_books_empty_entry:
  assumes "redis_get (cache w) cache_key = (Inr (Some []), c)"
  shows "list_books w = fetch_from_db (w\<lparr>cache := c\<rparr>)
    \<and> fst (list_books w) = Inr (snapshot (db w))
    \<and> select_count (db (snd (list_books w))) = Suc (select_count (db w))"
proof -
  from assms have lb: "list_books w = fetch_from_db (w\<lparr>cache := c\<rparr>)"
    by (simp add: list_books_def check_redis_def)
  show ?thesis
    by (simp add: lb fetch_from_db_result fetch_from_db_select_count)
qed

theorem list_books_empty_entry_witness:
  "redis_get (cache (example_world (Some []) [])) cache_key
     = (Inr (Some []), example_cache (Some []) [])
   \<and> fst (list_books (example_world (Some []) [])) = Inr (snapshot example_db)
   \<and> select_count (db (snd (list_books (example_world (Some []) [])))) = 1"
proof -
  have g: "redis_get (cache (example_world (Some []) [])) cache_key
     = (Inr (Some []), example_cache (Some []) [])"
    by (simp add: example_world_sel example_cache_sel redis_get_def next_fault_def
        live_value_def)
  have "select_count example_db = 0"
    by (simp add: example_db_def)
  with list_books_empty_entry [OF g, THEN conjunct2] g show ?thesis
    by (simp add: example_world_sel)
qed



end
